theory Spec2Isabelle
  imports Complex_Main "HOL-Library.Multiset" "HOL-Library.Product_Lexorder"
begin

section \<open>Binary64 numbers\<close>

text \<open>
  A JavaScript number is an IEEE 754 binary64 value. The finite ones are the rationals
  \<open>m * 2^e\<close> with \<open>|m| < 2^53\<close> and \<open>-1074 \<le> e \<le> 971\<close>; every arithmetic operation gives the
  exact result rounded to the nearest of them, to the one with an even \<open>m\<close> on a tie, and
  to an infinity from \<open>2^1024 - 2^970\<close> on.
\<close>

text \<open>The search for the largest power of two that is at most \<open>a\<close>, upwards and downwards
  from \<open>p\<close>.\<close>

function pow2_up :: "rat \<Rightarrow> rat \<Rightarrow> rat" where
  "pow2_up a p = (if 0 < p \<and> 2 * p \<le> a then pow2_up a (2 * p) else p)"
  by pat_completeness auto
termination
proof (relation "measure (\<lambda>(a, p). nat \<lfloor>a / p\<rfloor>)")
  show "wf (measure (\<lambda>(a, p). nat \<lfloor>a / p\<rfloor>))" by simp
next
  fix a p :: rat
  assume h: "0 < p \<and> 2 * p \<le> a"
  then have "2 \<le> a / p" by (simp add: pos_le_divide_eq)
  then have "a / (2 * p) + 1 \<le> a / p" by (simp add: field_simps)
  then have "\<lfloor>a / (2 * p) + 1\<rfloor> \<le> \<lfloor>a / p\<rfloor>" by (rule floor_mono)
  then have "\<lfloor>a / (2 * p)\<rfloor> + 1 \<le> \<lfloor>a / p\<rfloor>" by simp
  moreover have "0 \<le> \<lfloor>a / (2 * p)\<rfloor>" using h by simp
  ultimately have "nat \<lfloor>a / (2 * p)\<rfloor> < nat \<lfloor>a / p\<rfloor>" by linarith
  then show "((a, 2 * p), (a, p)) \<in> measure (\<lambda>(a, p). nat \<lfloor>a / p\<rfloor>)"
    by simp
qed

function pow2_down :: "rat \<Rightarrow> rat \<Rightarrow> rat" where
  "pow2_down a p = (if 0 < a \<and> a < p then pow2_down a (p / 2) else p)"
  by pat_completeness auto
termination
proof (relation "measure (\<lambda>(a, p). nat \<lceil>p / a\<rceil>)")
  show "wf (measure (\<lambda>(a, p). nat \<lceil>p / a\<rceil>))" by simp
next
  fix a p :: rat
  assume h: "0 < a \<and> a < p"
  then have "1 < p / a" by (simp add: pos_less_divide_eq)
  then have c: "2 \<le> \<lceil>p / a\<rceil>" by (simp add: le_ceiling_iff)
  have "p / a \<le> of_int \<lceil>p / a\<rceil>" by (rule le_of_int_ceiling)
  then have "p / 2 / a \<le> of_int \<lceil>p / a\<rceil> / 2" by simp
  also have "\<dots> \<le> of_int (\<lceil>p / a\<rceil> - 1)" using c by simp
  finally have le: "p / 2 / a \<le> of_int (\<lceil>p / a\<rceil> - 1)" .
  have "\<lceil>p / 2 / a\<rceil> \<le> \<lceil>p / a\<rceil> - 1" using le by (rule ceiling_le)
  then have "nat \<lceil>p / 2 / a\<rceil> < nat \<lceil>p / a\<rceil>" using c by linarith
  then show "((a, p / 2), (a, p)) \<in> measure (\<lambda>(a, p). nat \<lceil>p / a\<rceil>)"
    by simp
qed

declare pow2_up.simps [simp del]
declare pow2_down.simps [simp del]

text \<open>The largest power of two that is at most \<open>a\<close>, for \<open>a > 0\<close>.\<close>

definition pow2_floor :: "rat \<Rightarrow> rat" where
  "pow2_floor a = (if 1 \<le> a then pow2_up a 1 else pow2_down a 1)"

text \<open>The nearest integer, the even one on a tie.\<close>

definition rhe :: "rat \<Rightarrow> int" where
  "rhe y = (let f = \<lfloor>y\<rfloor>; d = y - of_int f
            in if d < 1 / 2 then f else if 1 / 2 < d then f + 1
               else if even f then f else f + 1)"

text \<open>The smallest positive number, the smallest normal number, and the bound of the
  finite numbers.\<close>

definition ulp_min :: rat where
  "ulp_min = 1 / 2 ^ 1074"

definition norm_min :: rat where
  "norm_min = 1 / 2 ^ 1022"

definition huge :: rat where
  "huge = 2 ^ 1024"

text \<open>The distance between the neighbouring numbers around \<open>a > 0\<close>: 52 binary places below
  its leading bit, and never less than \<open>2^-1074\<close>.\<close>

definition quantum :: "rat \<Rightarrow> rat" where
  "quantum a = max (pow2_floor a) norm_min / 2 ^ 52"

text \<open>Rounding to nearest, ties to even, before the test for overflow.\<close>

definition rd :: "rat \<Rightarrow> rat" where
  "rd x = (if x = 0 then 0
           else sgn x * (of_int (rhe (\<bar>x\<bar> / quantum \<bar>x\<bar>)) * quantum \<bar>x\<bar>))"

definition representable :: "rat \<Rightarrow> bool" where
  "representable x \<longleftrightarrow>
     (\<exists>(m::int) (k::nat). \<bar>m\<bar> < 2 ^ 53 \<and> k \<le> 2045 \<and> x = of_int m * 2 ^ k * ulp_min)"

text \<open>The finite binary64 numbers; \<open>val\<close> is the rational a number stands for. The zero of
  this type is the positive zero.\<close>

typedef double = "{x :: rat. representable x}"
  morphisms val Abs_double
proof -
  have "representable 0" unfolding representable_def
    by (rule exI[of _ 0], rule exI[of _ 0]) simp
  then show ?thesis by blast
qed

text \<open>The finite number nearest to \<open>x\<close>, for an \<open>x\<close> that does not overflow.\<close>

definition D :: "rat \<Rightarrow> double" where
  "D x = Abs_double (if \<bar>rd x\<bar> < huge then rd x else 0)"

definition dneg :: "double \<Rightarrow> double" where
  "dneg d = Abs_double (- val d)"

text \<open>A numeral that is a power of two.\<close>

fun pow2_num :: "num \<Rightarrow> bool" where
  "pow2_num num.One = True"
| "pow2_num (num.Bit0 n) = pow2_num n"
| "pow2_num (num.Bit1 n) = False"

section \<open>JavaScript numbers\<close>

text \<open>A number is \<open>NaN\<close>, an infinity, the negative zero, or a finite binary64 number.\<close>

datatype jsnum = NaN | NInf | NZero | Fin double | PInf

text \<open>The zero and the infinity of a sign.\<close>

definition szero :: "bool \<Rightarrow> jsnum" where
  "szero neg = (if neg then NZero else Fin (D 0))"

definition sinf :: "bool \<Rightarrow> jsnum" where
  "sinf neg = (if neg then NInf else PInf)"

text \<open>The number an exact result \<open>x\<close> is rounded to; a result that rounds to zero keeps
  its sign.\<close>

definition fl :: "rat \<Rightarrow> jsnum" where
  "fl x = (if huge \<le> \<bar>rd x\<bar> then sinf (x < 0)
           else if rd x = 0 then szero (x < 0)
           else Fin (D x))"

text \<open>The number a decimal literal of the source or of a JSON file denotes.\<close>

definition lit :: "rat \<Rightarrow> jsnum" where
  "lit x = fl x"

fun is_neg :: "jsnum \<Rightarrow> bool" where
  "is_neg (Fin d) = (val d < 0)"
| "is_neg NInf = True"
| "is_neg NZero = True"
| "is_neg _ = False"

fun is_zero :: "jsnum \<Rightarrow> bool" where
  "is_zero (Fin d) = (val d = 0)"
| "is_zero NZero = True"
| "is_zero _ = False"

fun is_inf :: "jsnum \<Rightarrow> bool" where
  "is_inf PInf = True"
| "is_inf NInf = True"
| "is_inf _ = False"

text \<open>The rational value of a finite number.\<close>

fun rval :: "jsnum \<Rightarrow> rat" where
  "rval (Fin d) = val d"
| "rval _ = 0"

text \<open>\<open>-a\<close>\<close>

fun jneg :: "jsnum \<Rightarrow> jsnum" where
  "jneg (Fin d) = (if val d = 0 then NZero else Fin (dneg d))"
| "jneg NZero = Fin (D 0)"
| "jneg PInf = NInf"
| "jneg NInf = PInf"
| "jneg NaN = NaN"

text \<open>\<open>a + b\<close>: opposite infinities give \<open>NaN\<close>; a sum that is exactly zero is the positive
  zero, unless both terms are the negative zero.\<close>

definition jadd :: "jsnum \<Rightarrow> jsnum \<Rightarrow> jsnum" where
  "jadd a b =
     (if a = NaN \<or> b = NaN then NaN
      else if is_inf a then (if is_inf b \<and> b \<noteq> a then NaN else a)
      else if is_inf b then b
      else if a = NZero then b
      else if b = NZero then a
      else if rval a + rval b = 0 then Fin (D 0)
      else fl (rval a + rval b))"

text \<open>\<open>a - b\<close>\<close>

definition jsub :: "jsnum \<Rightarrow> jsnum \<Rightarrow> jsnum" where
  "jsub a b = jadd a (jneg b)"

text \<open>\<open>a * b\<close>: an infinity times a zero is \<open>NaN\<close>; the sign is the product of the signs.\<close>

definition jmul :: "jsnum \<Rightarrow> jsnum \<Rightarrow> jsnum" where
  "jmul a b =
     (if a = NaN \<or> b = NaN then NaN
      else if is_inf a \<or> is_inf b
      then (if is_zero a \<or> is_zero b then NaN else sinf (is_neg a \<noteq> is_neg b))
      else if is_zero a \<or> is_zero b then szero (is_neg a \<noteq> is_neg b)
      else fl (rval a * rval b))"

text \<open>\<open>a / b\<close>: \<open>0 / 0\<close> and \<open>\<infinity> / \<infinity>\<close> are \<open>NaN\<close>; any other division by a zero is an infinity,
  with the product of the signs.\<close>

definition jdiv :: "jsnum \<Rightarrow> jsnum \<Rightarrow> jsnum" where
  "jdiv a b =
     (if a = NaN \<or> b = NaN then NaN
      else if is_inf a then (if is_inf b then NaN else sinf (is_neg a \<noteq> is_neg b))
      else if is_inf b then szero (is_neg a \<noteq> is_neg b)
      else if is_zero b then (if is_zero a then NaN else sinf (is_neg a \<noteq> is_neg b))
      else if is_zero a then szero (is_neg a \<noteq> is_neg b)
      else fl (rval a / rval b))"

text \<open>\<open>a > b\<close>: false as soon as one side is \<open>NaN\<close>; the two zeros are equal.\<close>

definition jgt :: "jsnum \<Rightarrow> jsnum \<Rightarrow> bool" where
  "jgt a b =
     (if a = NaN \<or> b = NaN then False
      else if a = PInf then b \<noteq> PInf
      else if b = PInf then False
      else if b = NInf then a \<noteq> NInf
      else if a = NInf then False
      else rval b < rval a)"

text \<open>\<open>!a\<close> on a number: the zeros and \<open>NaN\<close> are falsy.\<close>

definition falsy :: "jsnum \<Rightarrow> bool" where
  "falsy a \<longleftrightarrow> a = NaN \<or> is_zero a"

text \<open>
  \<open>Math.round\<close>: the integer closest to the argument, the larger one of the two when both
  are equally close; the negative zero for an argument from \<open>-0.5\<close> up to the negative zero.
\<close>

fun Math_round :: "jsnum \<Rightarrow> jsnum" where
  "Math_round (Fin d) =
     (let n = \<lfloor>val d + 1 / 2\<rfloor>
      in if n = 0 then szero (val d < 0) else fl (of_int n))"
| "Math_round a = a"

section \<open>helpers.js\<close>

text \<open>\<open>round(number)\<close>: \<open>Math.round(number * 100) / 100\<close>.\<close>

definition round_js :: "jsnum \<Rightarrow> jsnum" where
  "round_js number = jdiv (Math_round (jmul number (lit 100))) (lit 100)"

text \<open>\<open>percentChange(a, b)\<close>: \<open>round(((b - a) / a) * 100)\<close>.\<close>

definition percentChange :: "jsnum \<Rightarrow> jsnum \<Rightarrow> jsnum" where
  "percentChange a b = round_js (jmul (jdiv (jsub b a) a) (lit 100))"

section \<open>backtest.js: the scan of one stock\<close>

text \<open>
  A calendar day, in the order of the fields of the key \<open>DD-MM-YYYY\<close> that
  \<open>moment(d).format(DATE_FORMAT)\<close> makes of it. The key string is modelled by the day it
  names.
\<close>

record cal_date =
  dd :: nat
  mm :: nat
  yyyy :: nat

text \<open>One entry of \<open>instrument.ohlc\<close>; the scan reads its date, its open and its close.\<close>

record bar =
  bar_date :: cal_date
  bar_open :: jsnum
  bar_close :: jsnum

text \<open>The object pushed on \<open>allTrades\<close>.\<close>

record trade =
  date :: cal_date
  entry :: jsnum
  exit :: jsnum
  symbol :: string
  pnlPercent :: jsnum
  change :: jsnum

text \<open>\<open>const slippage = 1 + 0.001\<close>\<close>

definition slippage :: jsnum where
  "slippage = jadd (lit 1) (lit (1 / 1000))"

text \<open>
  The body of the loop of \<open>runTest\<close> at index \<open>start\<close>: the five entries are read, the two
  nested tests are made, and a trade is pushed when both pass.
\<close>

definition loop_body :: "string \<Rightarrow> bar list \<Rightarrow> nat \<Rightarrow> trade list \<Rightarrow> trade list" where
  "loop_body symb ohlc start allTrades =
     (let d0 = ohlc ! start;
          d1 = ohlc ! (start + 1);
          d2 = ohlc ! (start + 2);
          d3 = ohlc ! (start + 3);
          d4 = ohlc ! (start + 4)
      in if jgt (jsub (bar_close d1) (bar_close d2)) (jsub (bar_close d2) (bar_close d3))
            \<and> jgt (jsub (bar_close d2) (bar_close d3)) (jsub (bar_close d3) (bar_close d4))
            \<and> jgt (bar_close d1) (bar_close d2)
            \<and> jgt (bar_close d2) (bar_close d3)
            \<and> jgt (bar_close d3) (bar_close d4)
         then
           (let d1inc = percentChange (bar_close d2) (bar_close d1);
                d2inc = percentChange (bar_close d3) (bar_close d2);
                d3inc = percentChange (bar_close d4) (bar_close d4)
            in if jgt d1inc d2inc \<and> jgt d2inc d3inc
               then
                 (let date' = bar_date d1;
                      entry' = round_js (jmul (bar_close d1) slippage);
                      exit' = bar_open d0;
                      pnlPercent' = percentChange entry' exit'
                  in allTrades @
                     [\<lparr>date = date', entry = entry', exit = exit', symbol = symb,
                       pnlPercent = pnlPercent', change = d1inc\<rparr>])
               else allTrades)
         else allTrades)"

text \<open>
  \<open>for (let start = 0; start < maxIteration; start += 1)\<close>, where \<open>maxIteration\<close> is
  \<open>instrument.ohlc.length - 4\<close>, a number that is negative for fewer than four entries.
  Every index the body reads is below the length, since \<open>start + 4 < length ohlc\<close> there.
\<close>

function runTest_loop :: "string \<Rightarrow> bar list \<Rightarrow> int \<Rightarrow> nat \<Rightarrow> trade list \<Rightarrow> trade list" where
  "runTest_loop symb ohlc maxIteration start allTrades =
     (if int start < maxIteration
      then runTest_loop symb ohlc maxIteration (start + 1) (loop_body symb ohlc start allTrades)
      else allTrades)"
  by pat_completeness auto
termination
  by (relation "measure (\<lambda>(symb, ohlc, maxIteration, start, allTrades). nat (maxIteration - int start))")
     auto

declare runTest_loop.simps [simp del]

text \<open>The scan of a price series that has been read: the part of \<open>runTest\<close> after \<open>readFile\<close>.\<close>

definition scan :: "string \<Rightarrow> bar list \<Rightarrow> trade list" where
  "scan symb ohlc = runTest_loop symb ohlc (int (length ohlc) - 4) 0 []"

section \<open>Arrays and objects\<close>

text \<open>
  \<open>array.sort(cmp)\<close>. The language requires the sort to be stable, and a stable sort has one
  result for a comparator that orders the elements consistently; the model computes it by
  insertion: an element moves behind those the comparator puts strictly before it
  (\<open>cmp(x, y) > 0\<close>) and stays in front of the others, so equal elements keep their order.
\<close>

fun insort_by :: "('a \<Rightarrow> 'a \<Rightarrow> jsnum) \<Rightarrow> 'a \<Rightarrow> 'a list \<Rightarrow> 'a list" where
  "insort_by cmp x [] = [x]"
| "insort_by cmp x (y # ys) =
     (if jgt (cmp x y) (lit 0) then y # insort_by cmp x ys else x # y # ys)"

definition sort_by :: "('a \<Rightarrow> 'a \<Rightarrow> jsnum) \<Rightarrow> 'a list \<Rightarrow> 'a list" where
  "sort_by cmp xs = foldr (insort_by cmp) xs []"

text \<open>
  An object used as a hash map: its properties in the order of their creation, which is the
  order \<open>Object.keys\<close> lists them in (no key of the program is an array index). An
  assignment to a property that exists keeps its place.
\<close>

type_synonym ('k, 'v) obj = "('k \<times> 'v) list"

definition obj_get :: "'k \<Rightarrow> ('k, 'v) obj \<Rightarrow> 'v option" where
  "obj_get k ob = map_of ob k"

fun obj_set :: "'k \<Rightarrow> 'v \<Rightarrow> ('k, 'v) obj \<Rightarrow> ('k, 'v) obj" where
  "obj_set k v [] = [(k, v)]"
| "obj_set k v ((k', v') # kvs) =
     (if k' = k then (k, v) # kvs else (k', v') # obj_set k v kvs)"

definition Object_keys :: "('k, 'v) obj \<Rightarrow> 'k list" where
  "Object_keys ob = map fst ob"

text \<open>A property read as a number: a missing property is \<open>undefined\<close>, which is \<open>NaN\<close> in a sum
  and falsy in a test.\<close>

definition obj_num :: "'k \<Rightarrow> ('k, jsnum) obj \<Rightarrow> jsnum" where
  "obj_num k ob = (case obj_get k ob of None \<Rightarrow> NaN | Some v \<Rightarrow> v)"

text \<open>A property read as an array. The program reads only keys it has found or set before;
  for any other key the model reads the empty array.\<close>

definition obj_list :: "'k \<Rightarrow> ('k, 'v list) obj \<Rightarrow> 'v list" where
  "obj_list k ob = (case obj_get k ob of None \<Rightarrow> [] | Some v \<Rightarrow> v)"

text \<open>\<open>groupByDate(array)\<close>: the step of the reduction creates the array of a new date and
  pushes the item.\<close>

definition groupByDate_step ::
  "(cal_date, trade list) obj \<Rightarrow> trade \<Rightarrow> (cal_date, trade list) obj" where
  "groupByDate_step acc item =
     (let acc1 = (case obj_get (date item) acc of
                    None \<Rightarrow> obj_set (date item) [] acc
                  | Some _ \<Rightarrow> acc)
      in obj_set (date item) (obj_list (date item) acc1 @ [item]) acc1)"

definition groupByDate :: "trade list \<Rightarrow> (cal_date, trade list) obj" where
  "groupByDate array = foldl groupByDate_step [] array"

section \<open>backtest.js: the computation over all trades\<close>

text \<open>
  \<open>moment(d1, DATE_FORMAT).diff(moment(d2, DATE_FORMAT))\<close> is the time from \<open>d2\<close> to \<open>d1\<close>:
  negative when \<open>d1\<close> is the earlier day. The model counts in days of a calendar of twelve
  months of 31 days, which puts the days of the real calendar in the same order.
\<close>

definition day_number :: "cal_date \<Rightarrow> nat" where
  "day_number d = (yyyy d * 12 + mm d) * 31 + dd d"

definition date_diff :: "cal_date \<Rightarrow> cal_date \<Rightarrow> jsnum" where
  "date_diff d1 d2 = fl (of_int (int (day_number d1) - int (day_number d2)))"

text \<open>\<open>moment(date, DATE_FORMAT).format('MMM')\<close>\<close>

definition month_label :: "cal_date \<Rightarrow> string" where
  "month_label d =
     (if 1 \<le> mm d \<and> mm d \<le> 12
      then [''Jan'', ''Feb'', ''Mar'', ''Apr'', ''May'', ''Jun'',
            ''Jul'', ''Aug'', ''Sep'', ''Oct'', ''Nov'', ''Dec''] ! (mm d - 1)
      else ''Invalid date'')"

text \<open>The comparator of the trades of one date: \<open>(t1, t2) => t2.change - t1.change\<close>.\<close>

definition by_change :: "trade \<Rightarrow> trade \<Rightarrow> jsnum" where
  "by_change t1 t2 = jsub (change t2) (change t1)"

text \<open>The callback of the inner \<open>forEach\<close>, on \<open>totalPnl\<close> and \<open>trades\<close>.\<close>

definition take_trade ::
  "cal_date \<Rightarrow> jsnum \<times> (cal_date, trade list) obj \<Rightarrow> trade \<Rightarrow>
   jsnum \<times> (cal_date, trade list) obj" where
  "take_trade d st t =
     (case st of (totalPnl, trades) \<Rightarrow>
        (jadd totalPnl (pnlPercent t), obj_set d (obj_list d trades @ [t]) trades))"

text \<open>The callback of the outer \<open>forEach\<close>, on \<open>monthlyPnl\<close> and \<open>trades\<close>.\<close>

definition process_date ::
  "(cal_date, trade list) obj \<Rightarrow>
   (string, jsnum) obj \<times> (cal_date, trade list) obj \<Rightarrow> cal_date \<Rightarrow>
   (string, jsnum) obj \<times> (cal_date, trade list) obj" where
  "process_date allTradesByDates st d =
     (case st of (monthlyPnl, trades) \<Rightarrow>
        (let month = month_label d;
             monthlyPnl1 = (if falsy (obj_num month monthlyPnl)
                            then obj_set month (lit 0) monthlyPnl else monthlyPnl);
             trades1 = (case obj_get d trades of
                          None \<Rightarrow> obj_set d [] trades
                        | Some _ \<Rightarrow> trades);
             (totalPnl, trades2) =
               foldl (take_trade d) (lit 0, trades1)
                 (take 2 (sort_by by_change (obj_list d allTradesByDates)))
         in (obj_set month (round_js (jadd (obj_num month monthlyPnl1) totalPnl)) monthlyPnl1,
             trades2)))"

text \<open>A line of the CSV file: the header \<open>Date,PnL%\<close>, or a date and a number.\<close>

datatype csv_line = Date_PnL | Row cal_date jsnum

text \<open>The dates in the order the outer \<open>forEach\<close> visits them.\<close>

definition sorted_dates :: "(cal_date, trade list) obj \<Rightarrow> cal_date list" where
  "sorted_dates allTradesByDates = sort_by date_diff (Object_keys allTradesByDates)"

text \<open>The line of one date of \<open>trades\<close>.\<close>

definition csv_row :: "(cal_date, trade list) obj \<Rightarrow> cal_date \<Rightarrow> csv_line" where
  "csv_row trades d =
     Row d (foldl (\<lambda>acc t. round_js (jadd acc (pnlPercent t))) (lit 0) (obj_list d trades))"

text \<open>The object \<open>runBacktest\<close> returns.\<close>

record results =
  yearlyPnl :: jsnum
  monthlyPnl :: "(string, jsnum) obj"
  trades :: "(cal_date, trade list) obj"

text \<open>
  The part of \<open>runBacktest\<close> between the scans and the writing of the files: from
  \<open>allTrades\<close> to \<open>results\<close> and \<open>csvLines\<close>.
\<close>

definition compute :: "trade list \<Rightarrow> results \<times> csv_line list" where
  "compute allTrades =
     (let allTradesByDates = groupByDate allTrades;
          (monthlyPnl', trades') =
            foldl (process_date allTradesByDates) ([], []) (sorted_dates allTradesByDates);
          csvLines = Date_PnL # map (csv_row trades') (Object_keys trades');
          yearlyPnl' = foldl (\<lambda>acc month. round_js (jadd acc (obj_num month monthlyPnl')))
                         (lit 0) (Object_keys monthlyPnl')
      in (\<lparr>yearlyPnl = yearlyPnl', monthlyPnl = monthlyPnl', trades = trades'\<rparr>, csvLines))"

section \<open>Files and the run\<close>

text \<open>
  What a file of the data directory holds, as far as the program can tell: the JSON of an
  object whose \<open>ohlc\<close> is an array of objects with a date and with numbers as \<open>open\<close> and
  \<open>close\<close> (the other properties are not read; a number that is missing is read as
  \<open>undefined\<close>, which is \<open>NaN\<close> in the arithmetic and the comparisons of the scan); the
  JSON of an object whose \<open>ohlc\<close> is a value without a length (a number, a boolean, an
  object); the JSON of the results; the lines of a CSV text; a JSON value without an
  \<open>ohlc\<close> (\<open>null\<close>, a number, a string, an array, an object with other properties); or a
  text that \<open>JSON.parse\<close> rejects. An \<open>ohlc\<close> of another shape is outside the model.
\<close>

datatype file_content =
  Instrument_json "bar list"
| Ohlc_other_json
| Results_json results
| Csv_text "csv_line list"
| Other_json
| Not_json

text \<open>The data directory: the files by name, and the names \<open>fs.writeFile\<close> can write.\<close>

record world =
  files :: "string \<Rightarrow> file_content option"
  writable :: "string \<Rightarrow> bool"

datatype error = ReadError | SyntaxError | TypeError | WriteError | DownloadError

text \<open>
  How an asynchronous call ends: its promise is fulfilled with a value, or rejected with an
  error, or an exception is thrown where nothing catches it; then the promise is never
  settled and the process ends.
\<close>

datatype 'a outcome = Fulfilled 'a | Rejected error | Uncaught error

text \<open>
  \<open>readFile(filename)\<close>: an error of \<open>fs.readFile\<close> rejects the promise. \<open>JSON.parse\<close> is called
  in the callback of \<open>fs.readFile\<close>, outside the executor of the promise, so the exception
  it throws on a text that is not JSON is not caught.
\<close>

definition readFile :: "world \<Rightarrow> string \<Rightarrow> file_content outcome" where
  "readFile w filename =
     (case files w (filename @ ''.json'') of
        None \<Rightarrow> Rejected ReadError
      | Some Not_json \<Rightarrow> Uncaught SyntaxError
      | Some (Csv_text ls) \<Rightarrow> Uncaught SyntaxError
      | Some c \<Rightarrow> Fulfilled c)"

text \<open>\<open>writeFile(filename, data)\<close>: a string is written under the name given, an object as
  JSON under the name with \<open>.json\<close> added.\<close>

definition writeFile :: "world \<Rightarrow> string \<Rightarrow> file_content \<Rightarrow> world outcome" where
  "writeFile w filename data =
     (let fullname = (case data of Csv_text ls \<Rightarrow> filename | _ \<Rightarrow> filename @ ''.json'')
      in if writable w fullname
         then Fulfilled (w\<lparr>files := (files w)(fullname \<mapsto> data)\<rparr>)
         else Rejected WriteError)"

text \<open>
  \<open>runTest(year, symbol)\<close>. Without an \<open>ohlc\<close>, \<open>instrument.ohlc.length\<close> throws in the
  \<open>async\<close> function, which rejects its promise; with an \<open>ohlc\<close> that has no length,
  \<open>maxIteration\<close> is \<open>NaN\<close> and the loop does not run.
\<close>

definition runTest :: "world \<Rightarrow> string \<Rightarrow> string \<Rightarrow> trade list outcome" where
  "runTest w year symb =
     (case readFile w (year @ ''/'' @ symb) of
        Rejected e \<Rightarrow> Rejected e
      | Uncaught e \<Rightarrow> Uncaught e
      | Fulfilled (Instrument_json ohlc) \<Rightarrow> Fulfilled (scan symb ohlc)
      | Fulfilled Ohlc_other_json \<Rightarrow> Fulfilled []
      | Fulfilled _ \<Rightarrow> Rejected TypeError)"

text \<open>The promises that are not fulfilled, in the order of the indices of \<open>order\<close>.\<close>

definition failures :: "nat list \<Rightarrow> 'a outcome list \<Rightarrow> 'a outcome list" where
  "failures order ps =
     filter (\<lambda>p. case p of Fulfilled v \<Rightarrow> False | _ \<Rightarrow> True)
       (map (\<lambda>i. ps ! i) (filter (\<lambda>i. i < length ps) order))"

text \<open>The values of the fulfilled promises, in the order of the array.\<close>

definition fulfilled :: "'a outcome list \<Rightarrow> 'a list" where
  "fulfilled ps = concat (map (\<lambda>p. case p of Fulfilled v \<Rightarrow> [v] | _ \<Rightarrow> []) ps)"

text \<open>
  \<open>Promise.all(promises)\<close>: the values of all promises in the order of the array, or what
  the first promise that fails in time ends with. The order in time is the list \<open>order\<close> of
  indices; promises it leaves out follow in the order of the array.
\<close>

definition Promise_all :: "nat list \<Rightarrow> 'a outcome list \<Rightarrow> 'a list outcome" where
  "Promise_all order ps =
     (case failures (order @ [0..<length ps]) ps of
        [] \<Rightarrow> Fulfilled (fulfilled ps)
      | Rejected e # fs \<Rightarrow> Rejected e
      | Uncaught e # fs \<Rightarrow> Uncaught e
      | Fulfilled v # fs \<Rightarrow> Fulfilled (fulfilled ps))"

text \<open>
  \<open>runBacktest(year, shouldDownload)\<close>. The list \<open>nfoStocks\<close> comes from the configuration,
  the download of the data of a year is the work of the broker's interface, and the order
  in which the reads of the files end is the file system's: all three are parameters, the
  download as the data directory it leaves or the way it fails. A missing \<open>year\<close> is
  \<open>'2018'\<close>. The messages of the log are left out.
\<close>

definition runBacktest ::
  "string list \<Rightarrow> (string \<Rightarrow> world \<Rightarrow> world outcome) \<Rightarrow> nat list \<Rightarrow> world \<Rightarrow> string option \<Rightarrow>
   bool \<Rightarrow> (results \<times> world) outcome" where
  "runBacktest nfoStocks download order w year_opt shouldDownload =
     (let year = (case year_opt of None \<Rightarrow> ''2018'' | Some y \<Rightarrow> y)
      in case (if shouldDownload then download year w else Fulfilled w) of
           Rejected e \<Rightarrow> Rejected e
         | Uncaught e \<Rightarrow> Uncaught e
         | Fulfilled w1 \<Rightarrow>
             (case Promise_all order (map (\<lambda>symb. runTest w1 year symb) nfoStocks) of
                Rejected e \<Rightarrow> Rejected e
              | Uncaught e \<Rightarrow> Uncaught e
              | Fulfilled tradesPerStock \<Rightarrow>
                  (let allTrades = concat tradesPerStock;
                       (res, csvLines) = compute allTrades
                   in case writeFile w1 (year @ ''/backtest-result'') (Results_json res) of
                        Rejected e \<Rightarrow> Rejected e
                      | Uncaught e \<Rightarrow> Uncaught e
                      | Fulfilled w2 \<Rightarrow>
                          (case writeFile w2 (year @ ''/backtest-result.csv'')
                                  (Csv_text csvLines) of
                             Rejected e \<Rightarrow> Rejected e
                           | Uncaught e \<Rightarrow> Uncaught e
                           | Fulfilled w3 \<Rightarrow> Fulfilled (res, w3)))))"

section \<open>The properties in the words of the specification\<close>

text \<open>
  The entry conditions of the window that starts at index \<open>i\<close>, on the closes of \<open>d1\<close> to
  \<open>d4\<close> (the entries \<open>i + 1\<close> to \<open>i + 4\<close>): the gains slow down, the closes rise, and the percent
  changes \<open>inc1 > inc2 > inc3\<close> fall, where \<open>inc3\<close> is the change from \<open>d4\<close> to itself.
\<close>

definition entry_conditions :: "bar list \<Rightarrow> nat \<Rightarrow> bool" where
  "entry_conditions ohlc i =
     (let c1 = bar_close (ohlc ! (i + 1));
          c2 = bar_close (ohlc ! (i + 2));
          c3 = bar_close (ohlc ! (i + 3));
          c4 = bar_close (ohlc ! (i + 4));
          inc1 = percentChange c2 c1;
          inc2 = percentChange c3 c2;
          inc3 = percentChange c4 c4
      in (jgt (jsub c1 c2) (jsub c2 c3) \<and> jgt (jsub c2 c3) (jsub c3 c4))
         \<and> (jgt c1 c2 \<and> jgt c2 c3 \<and> jgt c3 c4)
         \<and> (jgt inc1 inc2 \<and> jgt inc2 inc3))"

text \<open>The candidate of the window that starts at index \<open>i\<close>: the object the loop pushes there.\<close>

definition window_trade :: "string \<Rightarrow> bar list \<Rightarrow> nat \<Rightarrow> trade" where
  "window_trade symb ohlc i =
     \<lparr>date = bar_date (ohlc ! (i + 1)),
      entry = round_js (jmul (bar_close (ohlc ! (i + 1))) slippage),
      exit = bar_open (ohlc ! i),
      symbol = symb,
      pnlPercent = percentChange (round_js (jmul (bar_close (ohlc ! (i + 1))) slippage))
                     (bar_open (ohlc ! i)),
      change = percentChange (bar_close (ohlc ! (i + 2))) (bar_close (ohlc ! (i + 1)))\<rparr>"

text \<open>
  \<open>r\<close> is \<open>x\<close> rounded half up to two decimals: a multiple of \<open>1/100\<close> that is nearest to \<open>x\<close>,
  and the larger of the two when \<open>x\<close> lies exactly between two multiples.
\<close>

definition half_up_2dp :: "rat \<Rightarrow> rat \<Rightarrow> bool" where
  "half_up_2dp x r \<longleftrightarrow> (\<exists>k::int. r = of_int k / 100) \<and> x - 1 / 200 < r \<and> r \<le> x + 1 / 200"

text \<open>A number that is neither \<open>NaN\<close> nor infinite.\<close>

fun is_fin :: "jsnum \<Rightarrow> bool" where
  "is_fin (Fin x) = True"
| "is_fin NZero = True"
| "is_fin _ = False"

text \<open>\<open>a >= b\<close>\<close>

fun jge :: "jsnum \<Rightarrow> jsnum \<Rightarrow> bool" where
  "jge NaN _ = False"
| "jge _ NaN = False"
| "jge a b = (\<not> jgt b a)"

text \<open>The trades selected for a date: the first two of the date's trades, sorted by \<open>change\<close>.\<close>

definition selected :: "trade list \<Rightarrow> cal_date \<Rightarrow> trade list" where
  "selected allTrades d = take 2 (sort_by by_change (filter (\<lambda>t. date t = d) allTrades))"

text \<open>The sum of the profit/loss of the trades of one date: \<open>totalPnl\<close> after the inner loop.\<close>

definition date_total :: "trade list \<Rightarrow> jsnum" where
  "date_total ts = foldl (\<lambda>totalPnl t. jadd totalPnl (pnlPercent t)) (lit 0) ts"

text \<open>The value of \<open>monthlyPnl[month]\<close> after \<open>if (!monthlyPnl[month]) monthlyPnl[month] = 0\<close>.\<close>

definition reset_falsy :: "jsnum \<Rightarrow> jsnum" where
  "reset_falsy v = (if falsy v then lit 0 else v)"

text \<open>A key that is smaller for the larger number, and the same for the two zeros: sorting
  by it in ascending order sorts the numbers in descending order.\<close>

definition desc_key :: "jsnum \<Rightarrow> nat \<times> rat" where
  "desc_key a =
     (case a of PInf \<Rightarrow> (0, 0) | Fin x \<Rightarrow> (1, - val x) | NZero \<Rightarrow> (1, 0)
              | NInf \<Rightarrow> (2, 0) | NaN \<Rightarrow> (3, 0))"

text \<open>The lines of the CSV file that belong to a date.\<close>

fun row_of :: "cal_date \<Rightarrow> csv_line \<Rightarrow> bool" where
  "row_of d (Row d' v) = (d' = d)"
| "row_of d Date_PnL = False"



section \<open>Example data\<close>

text \<open>A bar of a day of January 2018, with the open and the close as the file writes them.\<close>

definition day_bar :: "nat \<Rightarrow> rat \<Rightarrow> rat \<Rightarrow> bar" where
  "day_bar d op cl = \<lparr>bar_date = \<lparr>dd = d, mm = 1, yyyy = 2018\<rparr>, bar_open = lit op, bar_close = lit cl\<rparr>"

text \<open>Six bars, newest first, whose closes rise more and more slowly: the windows at 0 and 1
  both meet the entry conditions.\<close>

definition rally_ohlc :: "bar list" where
  "rally_ohlc =
     [day_bar 8 104 104, day_bar 5 (205 / 2) 103, day_bar 4 101 101,
      day_bar 3 100 100, day_bar 2 (199 / 2) (199 / 2), day_bar 1 (497 / 5) (497 / 5)]"






text \<open>A trade of 2018 entered at 100.\<close>

definition sample_trade :: "nat \<Rightarrow> nat \<Rightarrow> string \<Rightarrow> rat \<Rightarrow> rat \<Rightarrow> trade" where
  "sample_trade d m symb chg ex =
     \<lparr>date = \<lparr>dd = d, mm = m, yyyy = 2018\<rparr>, entry = lit 100, exit = lit ex, symbol = symb,
      pnlPercent = percentChange (lit 100) (lit ex), change = lit chg\<rparr>"

text \<open>Five trades: three on 4 January (two of them with the same \<open>change\<close>), one on 10 January
  and one on 5 February, listed with the February trade first.\<close>

definition sample_trades :: "trade list" where
  "sample_trades =
     [sample_trade 5 2 ''ACC'' 1 102,
      sample_trade 4 1 ''BEL'' (3 / 2) (203 / 2),
      sample_trade 4 1 ''CIPLA'' 2 (199 / 2),
      sample_trade 4 1 ''DLF'' (3 / 2) 103,
      sample_trade 10 1 ''ACC'' 1 (401 / 4)]"

text \<open>A download that always fails.\<close>

definition offline :: "string \<Rightarrow> world \<Rightarrow> world outcome" where
  "offline year w = Rejected DownloadError"

text \<open>A data directory with no file, where every file can be written.\<close>

definition empty_dir :: world where
  "empty_dir = \<lparr>files = Map.empty, writable = (\<lambda>name. True)\<rparr>"



section \<open>Binary64 rounding\<close>

lemma pow2_up_spec:
  assumes "0 < p" "p \<le> a"
  shows "pow2_up a p \<le> a \<and> a < 2 * pow2_up a p \<and> (\<exists>n::nat. pow2_up a p = p * 2 ^ n)"
  using assms
proof (induction a p rule: pow2_up.induct)
  case (1 a p)
  show ?case
  proof (cases "2 * p \<le> a")
    case True
    with 1 have ih: "pow2_up a (2 * p) \<le> a \<and> a < 2 * pow2_up a (2 * p)
        \<and> (\<exists>n::nat. pow2_up a (2 * p) = 2 * p * 2 ^ n)"
      by simp
    then obtain n :: nat where n: "pow2_up a (2 * p) = 2 * p * 2 ^ n" by blast
    have e: "pow2_up a p = pow2_up a (2 * p)"
      using True 1(2) by (subst pow2_up.simps) simp
    have "pow2_up a p = p * 2 ^ Suc n" using n e by simp
    then show ?thesis using ih e by metis
  next
    case False
    then have e: "pow2_up a p = p" by (subst pow2_up.simps) simp
    have "p = p * 2 ^ (0::nat)" by simp
    then show ?thesis using False 1(3) e by (metis not_le)
  qed
qed

lemma pow2_down_spec:
  assumes "0 < a" "0 < p" "a < 2 * p"
  shows "pow2_down a p \<le> a \<and> a < 2 * pow2_down a p \<and> (\<exists>n::nat. pow2_down a p = p / 2 ^ n)"
  using assms
proof (induction a p rule: pow2_down.induct)
  case (1 a p)
  show ?case
  proof (cases "a < p")
    case True
    with 1 have ih: "pow2_down a (p / 2) \<le> a \<and> a < 2 * pow2_down a (p / 2)
        \<and> (\<exists>n::nat. pow2_down a (p / 2) = p / 2 / 2 ^ n)"
      by simp
    then obtain n :: nat where n: "pow2_down a (p / 2) = p / 2 / 2 ^ n" by blast
    have e: "pow2_down a p = pow2_down a (p / 2)"
      using True 1(2) by (subst pow2_down.simps) simp
    have "pow2_down a p = p / 2 ^ Suc n" using n e by simp
    then show ?thesis using ih e by metis
  next
    case False
    then have e: "pow2_down a p = p" by (subst pow2_down.simps) simp
    have "p = p / 2 ^ (0::nat)" by simp
    then show ?thesis using False 1(4) e by (metis not_less)
  qed
qed

lemma pow2_floor_spec:
  assumes "0 < a"
  shows "pow2_floor a \<le> a \<and> a < 2 * pow2_floor a
         \<and> (\<exists>n::nat. pow2_floor a = 2 ^ n \<or> pow2_floor a = 1 / 2 ^ n)"
proof (cases "1 \<le> a")
  case True
  then show ?thesis
    using pow2_up_spec[of 1 a] by (auto simp: pow2_floor_def)
next
  case False
  then show ?thesis
    using pow2_down_spec[of a 1] assms by (auto simp: pow2_floor_def)
qed

lemma norm_min_ulp: "norm_min = 2 ^ 52 * ulp_min"
  by (simp add: norm_min_def ulp_min_def)

lemma huge_ulp: "huge = 2 ^ 2098 * ulp_min"
  by (simp add: huge_def ulp_min_def)

lemma one_ulp: "1 = 2 ^ 1074 * ulp_min"
  by (simp add: ulp_min_def)

lemma ulp_min_pos: "0 < ulp_min"
  by (simp add: ulp_min_def)


lemma quantum_cases:
  assumes "0 < a"
  shows "\<exists>j::nat. quantum a = 2 ^ j * ulp_min \<and> a < 2 ^ (j + 53) * ulp_min
           \<and> (j = 0 \<or> 2 ^ (j + 52) * ulp_min \<le> a)"
proof -
  let ?r = "pow2_floor a"
  from pow2_floor_spec[OF assms] obtain n :: nat where
    lo: "?r \<le> a" and hi: "a < 2 * ?r" and pw: "?r = 2 ^ n \<or> ?r = 1 / 2 ^ n"
    by blast
  show ?thesis
  proof (cases "?r \<le> norm_min")
    case True
    then have "quantum a = norm_min / 2 ^ 52" by (simp add: quantum_def max_def)
    then have q: "quantum a = 2 ^ 0 * ulp_min" by (simp add: norm_min_ulp)
    have "a < 2 * norm_min" using hi True by simp
    then have "a < 2 ^ (0 + 53) * ulp_min" by (simp add: norm_min_ulp)
    with q show ?thesis by blast
  next
    case False
    then have big: "norm_min < ?r" by simp
    then have q: "quantum a = ?r / 2 ^ 52" by (simp add: quantum_def max_def)
    have "\<exists>j::nat. ?r = 2 ^ (j + 52) * ulp_min"
    proof (rule disjE[OF pw])
      assume r: "?r = 2 ^ n"
      have "(2::rat) ^ n = 2 ^ n * (2 ^ 1074 * ulp_min)" using one_ulp by simp
      also have "\<dots> = 2 ^ (n + 1022 + 52) * ulp_min" by (simp add: power_add)
      finally show ?thesis using r by metis
    next
      assume r: "?r = 1 / 2 ^ n"
      have "n < 1022"
      proof (rule ccontr)
        assume "\<not> n < 1022"
        then have "(2::rat) ^ 1022 \<le> 2 ^ n" by (intro power_increasing) simp_all
        then have "1 / (2::rat) ^ n \<le> 1 / 2 ^ 1022" by (intro divide_left_mono) simp_all
        with big r show False by (simp add: norm_min_def)
      qed
      then obtain j where j: "1022 = j + n" by (metis add.commute less_imp_add_positive)
      have "(2::rat) ^ (j + 52) * ulp_min = 2 ^ (j + 52) / 2 ^ (j + n + 52)"
        using j by (simp add: ulp_min_def)
      also have "\<dots> = 1 / 2 ^ n" by (simp add: power_add)
      finally show ?thesis using r by metis
    qed
    then obtain j :: nat where j: "?r = 2 ^ (j + 52) * ulp_min" by blast
    have q': "quantum a = 2 ^ j * ulp_min" using q j by (simp add: power_add)
    have "a < 2 ^ (j + 53) * ulp_min" using hi j by (simp add: power_add)
    moreover have "2 ^ (j + 52) * ulp_min \<le> a" using lo j by simp
    ultimately show ?thesis using q' by blast
  qed
qed

lemma rhe_bounds: "\<lfloor>y\<rfloor> \<le> rhe y \<and> rhe y \<le> \<lfloor>y\<rfloor> + 1"
  by (simp add: rhe_def Let_def)

lemma rhe_of_int [simp]: "rhe (of_int n) = n"
  by (simp add: rhe_def)

lemma rd_cases:
  assumes "x \<noteq> 0"
  shows "\<exists>(j::nat) (n::int). rd x = sgn x * (of_int n * (2 ^ j * ulp_min))
           \<and> n = rhe (\<bar>x\<bar> / (2 ^ j * ulp_min))
           \<and> 0 \<le> n \<and> n \<le> 2 ^ 53
           \<and> \<bar>x\<bar> < 2 ^ (j + 53) * ulp_min
           \<and> (j = 0 \<or> (2 ^ 52 \<le> n \<and> 2 ^ (j + 52) * ulp_min \<le> \<bar>x\<bar>))"
proof -
  have a: "0 < \<bar>x\<bar>" using assms by simp
  from quantum_cases[OF a] obtain j :: nat where
    q: "quantum \<bar>x\<bar> = 2 ^ j * ulp_min" and hi: "\<bar>x\<bar> < 2 ^ (j + 53) * ulp_min"
    and lo: "j = 0 \<or> 2 ^ (j + 52) * ulp_min \<le> \<bar>x\<bar>"
    by blast
  let ?q = "2 ^ j * ulp_min :: rat"
  let ?y = "\<bar>x\<bar> / ?q"
  let ?n = "rhe ?y"
  have qpos: "0 < ?q" using ulp_min_pos by simp
  have r: "rd x = sgn x * (of_int ?n * ?q)" using assms by (simp add: rd_def q)
  have y0: "0 \<le> ?y" using qpos by simp
  have e53: "2 ^ (j + 53) * ulp_min = 2 ^ 53 * ?q" by (simp add: power_add)
  from hi have "\<bar>x\<bar> < 2 ^ 53 * ?q" unfolding e53 .
  then have "?y < 2 ^ 53" using qpos by (simp add: pos_divide_less_eq)
  then have "\<lfloor>?y\<rfloor> < 2 ^ 53" by (simp add: floor_less_iff)
  then have n_hi: "?n \<le> 2 ^ 53" using rhe_bounds[of ?y] by linarith
  have "0 \<le> \<lfloor>?y\<rfloor>" using y0 by simp
  then have n_lo: "0 \<le> ?n" using rhe_bounds[of ?y] by linarith
  have big: "2 ^ 52 \<le> ?n" if "2 ^ (j + 52) * ulp_min \<le> \<bar>x\<bar>"
  proof -
    have e52: "2 ^ (j + 52) * ulp_min = 2 ^ 52 * ?q" by (simp add: power_add)
    from that have "2 ^ 52 * ?q \<le> \<bar>x\<bar>" unfolding e52 .
    then have "2 ^ 52 \<le> ?y" using qpos by (simp add: pos_le_divide_eq)
    then have "2 ^ 52 \<le> \<lfloor>?y\<rfloor>" by (simp add: le_floor_iff)
    then show ?thesis using rhe_bounds[of ?y] by linarith
  qed
  show ?thesis
    using r n_hi n_lo hi lo big by blast
qed


lemma rd_0 [simp]: "rd 0 = 0"
  by (simp add: rd_def)

lemma representable_0 [simp]: "representable 0"
  unfolding representable_def by (rule exI[of _ 0], rule exI[of _ 0]) simp

lemma representable_minus: "representable x \<Longrightarrow> representable (- x)"
proof -
  assume "representable x"
  then obtain m :: int and k :: nat where
    "\<bar>m\<bar> < 2 ^ 53" "k \<le> 2045" "x = of_int m * 2 ^ k * ulp_min"
    unfolding representable_def by blast
  then have "\<bar>- m\<bar> < 2 ^ 53 \<and> k \<le> 2045 \<and> - x = of_int (- m) * 2 ^ k * ulp_min"
    by simp
  then show ?thesis unfolding representable_def by blast
qed

lemma representable_bound: "representable x \<Longrightarrow> \<bar>x\<bar> < huge"
proof -
  assume "representable x"
  then obtain m :: int and k :: nat where
    m: "\<bar>m\<bar> < 2 ^ 53" and k: "k \<le> 2045" and x: "x = of_int m * 2 ^ k * ulp_min"
    unfolding representable_def by blast
  have "\<bar>x\<bar> = of_int \<bar>m\<bar> * 2 ^ k * ulp_min"
    using ulp_min_pos by (simp add: x abs_mult)
  also have "\<dots> \<le> of_int \<bar>m\<bar> * 2 ^ 2045 * ulp_min"
    using k ulp_min_pos by (intro mult_right_mono mult_left_mono power_increasing) simp_all
  also have "\<dots> < 2 ^ 53 * 2 ^ 2045 * ulp_min"
  proof -
    have "(of_int \<bar>m\<bar> :: rat) < of_int (2 ^ 53)" using m by (simp only: of_int_less_iff)
    then have "(of_int \<bar>m\<bar> :: rat) < 2 ^ 53" by simp
    then show ?thesis using ulp_min_pos by (intro mult_strict_right_mono) simp_all
  qed
  also have "\<dots> = huge" by (simp add: huge_ulp flip: power_add)
  finally show ?thesis .
qed

lemma pow2_less_iff: "(2::rat) ^ a < 2 ^ b \<longleftrightarrow> a < b"
  by simp

lemma representable_rd:
  assumes "\<bar>rd x\<bar> < huge"
  shows "representable (rd x)"
proof (cases "x = 0")
  case True
  then show ?thesis by simp
next
  case False
  from rd_cases[OF False] obtain j :: nat and n :: int where
    r: "rd x = sgn x * (of_int n * (2 ^ j * ulp_min))"
    and n0: "0 \<le> n" and n1: "n \<le> 2 ^ 53"
    and lo: "j = 0 \<or> 2 ^ 52 \<le> n"
    by blast
  define s :: int where "s = (if 0 < x then 1 else - 1)"
  have sg: "sgn x = of_int s" using False by (simp add: s_def sgn_if)
  have rs: "rd x = of_int (s * n) * 2 ^ j * ulp_min" by (simp add: r sg)
  have ab: "\<bar>rd x\<bar> = of_int n * 2 ^ j * ulp_min"
    using n0 ulp_min_pos by (simp add: rs abs_mult s_def)
  have lt: "of_int n * (2::rat) ^ j < 2 ^ 2098"
    using assms ulp_min_pos unfolding ab huge_ulp by simp
  show ?thesis
  proof (cases "n = 0")
    case True
    then show ?thesis by (simp add: rs)
  next
    case nz: False
    show ?thesis
    proof (cases "n = 2 ^ 53")
      case True
      have "(2::rat) ^ (53 + j) < 2 ^ 2098" using lt True by (simp add: power_add)
      then have "53 + j < 2098" by (simp only: pow2_less_iff)
      then have k: "j + 1 \<le> 2045" by simp
      have "rd x = of_int (s * 2 ^ 52) * 2 ^ (j + 1) * ulp_min" by (simp add: rs True)
      moreover have "\<bar>s * 2 ^ 52\<bar> < (2::int) ^ 53" by (simp add: s_def abs_mult)
      ultimately show ?thesis using k unfolding representable_def by blast
    next
      case False
      then have m: "\<bar>s * n\<bar> < 2 ^ 53" using n0 n1 by (simp add: s_def abs_mult)
      have k: "j \<le> 2045"
      proof (cases "j = 0")
        case True
        then show ?thesis by simp
      next
        case False
        with lo have "2 ^ 52 \<le> n" by simp
        then have "(of_int (2 ^ 52) :: rat) \<le> of_int n" by (simp only: of_int_le_iff)
        then have "(2::rat) ^ 52 \<le> of_int n" by simp
        then have le: "(2::rat) ^ 52 * 2 ^ j \<le> of_int n * 2 ^ j"
          by (intro mult_right_mono) simp_all
        have "(2::rat) ^ (52 + j) = 2 ^ 52 * 2 ^ j" by (rule power_add)
        also have "\<dots> \<le> of_int n * 2 ^ j" by (rule le)
        also have "\<dots> < 2 ^ 2098" by (rule lt)
        finally have "(2::rat) ^ (52 + j) < 2 ^ 2098" .
        then have "52 + j < 2098" by (simp only: pow2_less_iff)
        then show ?thesis by simp
      qed
      show ?thesis using rs m k unfolding representable_def by blast
    qed
  qed
qed

lemma val_D: "val (D x) = (if \<bar>rd x\<bar> < huge then rd x else 0)"
  unfolding D_def by (rule Abs_double_inverse) (simp add: representable_rd)

lemma val_dneg [simp]: "val (dneg d) = - val d"
proof -
  have "representable (val d)" using val[of d] by simp
  then have "representable (- val d)" by (rule representable_minus)
  then show ?thesis unfolding dneg_def by (simp add: Abs_double_inverse)
qed

lemma representable_val [simp]: "representable (val d)"
  using val[of d] by simp

lemma rd_representable:
  assumes "representable x"
  shows "rd x = x"
proof (cases "x = 0")
  case True
  then show ?thesis by simp
next
  case False
  from assms obtain m :: int and k :: nat where
    m: "\<bar>m\<bar> < 2 ^ 53" and x: "x = of_int m * 2 ^ k * ulp_min"
    unfolding representable_def by blast
  have ax: "\<bar>x\<bar> = of_int \<bar>m\<bar> * 2 ^ k * ulp_min"
    using ulp_min_pos by (simp add: x abs_mult)
  from rd_cases[OF False] obtain j :: nat and n :: int where
    r: "rd x = sgn x * (of_int n * (2 ^ j * ulp_min))"
    and n: "n = rhe (\<bar>x\<bar> / (2 ^ j * ulp_min))"
    and lo: "j = 0 \<or> (2 ^ 52 \<le> n \<and> 2 ^ (j + 52) * ulp_min \<le> \<bar>x\<bar>)"
    by blast
  have jk: "j \<le> k"
  proof (cases "j = 0")
    case True
    then show ?thesis by simp
  next
    case False
    with lo have "2 ^ (j + 52) * ulp_min \<le> \<bar>x\<bar>" by simp
    then have le: "(2::rat) ^ (j + 52) \<le> of_int \<bar>m\<bar> * 2 ^ k"
      using ulp_min_pos by (simp add: ax)
    have lt: "of_int \<bar>m\<bar> * (2::rat) ^ k < 2 ^ 53 * 2 ^ k"
    proof -
      have "(of_int \<bar>m\<bar> :: rat) < of_int (2 ^ 53)" using m by (simp only: of_int_less_iff)
      then have "(of_int \<bar>m\<bar> :: rat) < 2 ^ 53" by simp
      then show ?thesis by (intro mult_strict_right_mono) simp_all
    qed
    have "(2::rat) ^ (j + 52) \<le> of_int \<bar>m\<bar> * 2 ^ k" by (rule le)
    also have "\<dots> < 2 ^ 53 * 2 ^ k" by (rule lt)
    also have "\<dots> = 2 ^ (53 + k)" by (rule power_add[symmetric])
    finally have "(2::rat) ^ (j + 52) < 2 ^ (53 + k)" .
    then have "j + 52 < 53 + k" by (simp only: pow2_less_iff)
    then show ?thesis by simp
  qed
  then obtain i where k: "k = j + i" by (metis le_Suc_ex)
  have "\<bar>x\<bar> / (2 ^ j * ulp_min) = of_int (\<bar>m\<bar> * 2 ^ i)"
    using ulp_min_pos by (simp add: ax k power_add)
  then have "n = \<bar>m\<bar> * 2 ^ i" using n by (simp only: rhe_of_int)
  then have "rd x = sgn x * \<bar>x\<bar>" by (simp add: r ax k power_add)
  then show ?thesis by (simp add: sgn_mult_abs)
qed

lemma rd_multiple_nonzero:
  assumes "x = of_int N * ulp_min" "N \<noteq> 0"
  shows "rd x \<noteq> 0"
proof -
  have xz: "x \<noteq> 0" using assms ulp_min_pos by simp
  from rd_cases[OF xz] obtain j :: nat and n :: int where
    r: "rd x = sgn x * (of_int n * (2 ^ j * ulp_min))"
    and n: "n = rhe (\<bar>x\<bar> / (2 ^ j * ulp_min))"
    and lo: "j = 0 \<or> (2 ^ 52 \<le> n \<and> 2 ^ (j + 52) * ulp_min \<le> \<bar>x\<bar>)"
    by blast
  have "n \<noteq> 0"
  proof (cases "j = 0")
    case True
    have "\<bar>x\<bar> / (2 ^ j * ulp_min) = of_int \<bar>N\<bar>"
      using ulp_min_pos by (simp add: assms(1) True abs_mult)
    then have "n = \<bar>N\<bar>" using n by (simp only: rhe_of_int)
    then show ?thesis using assms(2) by simp
  next
    case False
    with lo have "2 ^ 52 \<le> n" by simp
    then show ?thesis by auto
  qed
  then show ?thesis using xz ulp_min_pos by (simp add: r sgn_if)
qed

lemma representable_multiple: "representable x \<Longrightarrow> \<exists>N::int. x = of_int N * ulp_min"
proof -
  assume "representable x"
  then obtain m :: int and k :: nat where "x = of_int m * 2 ^ k * ulp_min"
    unfolding representable_def by blast
  then have "x = of_int (m * 2 ^ k) * ulp_min" by simp
  then show ?thesis by blast
qed

lemma rd_sum_nonzero:
  assumes "representable a" "representable b" "a + b \<noteq> 0"
  shows "rd (a + b) \<noteq> 0"
proof -
  from assms obtain M N :: int where "a = of_int M * ulp_min" "b = of_int N * ulp_min"
    using representable_multiple by blast
  then have s: "a + b = of_int (M + N) * ulp_min" by (simp add: algebra_simps)
  with assms(3) have "M + N \<noteq> 0" by auto
  with s show ?thesis by (rule rd_multiple_nonzero)
qed

lemma rd_sign: "(0 < rd x \<longrightarrow> 0 < x) \<and> (rd x < 0 \<longrightarrow> x < 0)"
proof (cases "x = 0")
  case True
  then show ?thesis by simp
next
  case False
  from rd_cases[OF False] obtain j :: nat and n :: int where
    r: "rd x = sgn x * (of_int n * (2 ^ j * ulp_min))" and n0: "0 \<le> n"
    by blast
  define v :: rat where "v = of_int n * (2 ^ j * ulp_min)"
  have v: "0 \<le> v" using n0 ulp_min_pos by (simp add: v_def)
  have "rd x = sgn x * v" using r by (simp only: v_def)
  then show ?thesis using False v
    by (cases "0 < x") (auto simp: sgn_if mult_less_0_iff zero_less_mult_iff)
qed


section \<open>Evaluation of numbers\<close>

lemma floor_rat_numeral [simp]:
  "\<lfloor>numeral a / numeral b :: rat\<rfloor> = numeral a div numeral b"
  by (metis floor_divide_of_int_eq of_int_numeral)

lemma floor_rat_neg_numeral [simp]:
  "\<lfloor>- numeral a / numeral b :: rat\<rfloor> = - numeral a div numeral b"
  by (metis floor_divide_of_int_eq of_int_numeral of_int_minus)

lemma floor_rat_minus_numeral [simp]:
  "\<lfloor>- (numeral a / numeral b) :: rat\<rfloor> = - numeral a div numeral b"
  using floor_rat_neg_numeral[of a b] by simp

lemma floor_rat_minus_one_numeral [simp]:
  "\<lfloor>- (1 / numeral b) :: rat\<rfloor> = - 1 div numeral b"
  by (metis floor_divide_of_int_eq of_int_numeral of_int_1 of_int_minus minus_divide_left)

lemma floor_rat_one_numeral [simp]:
  "\<lfloor>1 / numeral b :: rat\<rfloor> = 1 div numeral b"
  by (metis floor_divide_of_int_eq of_int_numeral of_int_1)

lemma floor_rat_neg_one_numeral [simp]:
  "\<lfloor>- 1 / numeral b :: rat\<rfloor> = - 1 div numeral b"
  by (metis floor_divide_of_int_eq of_int_numeral of_int_1 of_int_minus)

lemma double_eq_iff: "(a = b) = (val a = val b)" for a b :: double
  by (simp add: val_inject)



lemma tiny_norm_min: "norm_min \<le> 1 / 1267650600228229401496703205376"
  by (simp add: norm_min_def)

lemma big_huge: "1267650600228229401496703205376 \<le> huge"
  by (simp add: huge_def)

lemma pow2_num_power: "pow2_num b \<Longrightarrow> \<exists>k::nat. (numeral b :: rat) = 2 ^ k"
proof (induction b)
  case One
  show ?case by (rule exI[of _ 0]) (simp only: numeral_One power_0)
next
  case (Bit0 b)
  then have "pow2_num b" by (simp only: pow2_num.simps)
  with Bit0 obtain k :: nat where k: "(numeral b :: rat) = 2 ^ k" by blast
  have "(numeral (num.Bit0 b) :: rat) = numeral b + numeral b" by (rule numeral_Bit0)
  also have "\<dots> = 2 * numeral b" by (rule mult_2[symmetric])
  also have "\<dots> = 2 ^ Suc k" by (simp only: k power_Suc)
  finally show ?case by blast
next
  case (Bit1 b)
  then show ?case by (simp only: pow2_num.simps)
qed

lemma representable_dyadic:
  assumes "\<bar>m\<bar> < 2 ^ 53" "k \<le> 1074"
  shows "representable (of_int m / 2 ^ k)"
proof -
  obtain i where i: "1074 = k + i" using assms(2) by (metis le_Suc_ex)
  have "(2::rat) ^ 1074 = 2 ^ k * 2 ^ i" by (simp only: i power_add)
  then have "of_int m / 2 ^ k = of_int m * 2 ^ i * ulp_min"
    by (simp add: ulp_min_def field_simps)
  moreover have "i \<le> 2045" using i by simp
  ultimately show ?thesis using assms(1) unfolding representable_def by blast
qed

lemma val_D_representable: "representable x \<Longrightarrow> val (D x) = x"
  using representable_bound[of x] by (simp add: val_D rd_representable)

lemma val_D_frac:
  assumes "pow2_num b" "(numeral b :: int) \<le> 1267650600228229401496703205376"
    and "\<bar>m\<bar> < (9007199254740992 :: int)"
  shows "val (D (of_int m / numeral b)) = of_int m / numeral b"
proof -
  from pow2_num_power[OF assms(1)] obtain k :: nat where k: "(numeral b :: rat) = 2 ^ k"
    by blast
  have "(of_int (numeral b) :: rat) \<le> of_int 1267650600228229401496703205376"
    using assms(2) by (simp only: of_int_le_iff)
  then have p: "(2::rat) ^ k \<le> 2 ^ 100" using k by simp
  have "k \<le> 100" by (rule power_le_imp_le_exp[OF _ p]) simp
  then have "k \<le> 1074" by simp
  moreover have "\<bar>m\<bar> < 2 ^ 53" using assms(3) by simp
  ultimately have "representable (of_int m / 2 ^ k)" by (intro representable_dyadic)
  then show ?thesis by (simp add: k val_D_representable)
qed


lemma val_D_numeral_frac:
  "pow2_num b \<Longrightarrow> (numeral b :: int) \<le> 1267650600228229401496703205376 \<Longrightarrow>
   (numeral a :: int) < 9007199254740992 \<Longrightarrow>
     val (D (numeral a / numeral b)) = numeral a / numeral b"
  using val_D_frac[of b "numeral a"] by simp

lemma val_D_neg_numeral_frac:
  "pow2_num b \<Longrightarrow> (numeral b :: int) \<le> 1267650600228229401496703205376 \<Longrightarrow>
   (numeral a :: int) < 9007199254740992 \<Longrightarrow>
     val (D (- (numeral a / numeral b))) = - (numeral a / numeral b)"
  using val_D_frac[of b "- numeral a"] by simp

lemma val_D_one_frac:
  "pow2_num b \<Longrightarrow> (numeral b :: int) \<le> 1267650600228229401496703205376 \<Longrightarrow>
     val (D (1 / numeral b)) = 1 / numeral b"
  using val_D_frac[of b 1] by simp

lemma val_D_neg_one_frac:
  "pow2_num b \<Longrightarrow> (numeral b :: int) \<le> 1267650600228229401496703205376 \<Longrightarrow>
     val (D (- (1 / numeral b))) = - (1 / numeral b)"
  using val_D_frac[of b "- 1"] by simp

lemma val_D_numeral:
  "(numeral a :: int) < 9007199254740992 \<Longrightarrow> val (D (numeral a)) = numeral a"
  using val_D_frac[of num.One "numeral a"] by simp

lemma val_D_neg_numeral:
  "(numeral a :: int) < 9007199254740992 \<Longrightarrow> val (D (- numeral a)) = - numeral a"
  using val_D_frac[of num.One "- numeral a"] by simp

lemma val_D_0 [simp]: "val (D 0) = 0"
  by (simp add: val_D_representable)

lemma val_D_1 [simp]: "val (D 1) = 1"
  using val_D_frac[of num.One 1] by simp

lemma val_D_neg_1 [simp]: "val (D (- 1)) = - 1"
  using val_D_frac[of num.One "- 1"] by simp

lemmas val_D_eval = val_D_numeral_frac val_D_neg_numeral_frac val_D_one_frac val_D_neg_one_frac
  val_D_numeral val_D_neg_numeral

lemma Let_frac [simp]:
  "Let (numeral a / numeral b :: rat) f = f (numeral a / numeral b)"
  "Let (- (numeral a / numeral b) :: rat) f = f (- (numeral a / numeral b))"
  "Let (1 / numeral b :: rat) f = f (1 / numeral b)"
  "Let (- (1 / numeral b) :: rat) f = f (- (1 / numeral b))"
  by (simp_all add: Let_def)

lemma rd_eval:
  "rd x = (if x = 0 then 0
           else let q = quantum \<bar>x\<bar> in sgn x * (of_int (rhe (\<bar>x\<bar> / q)) * q))"
  by (simp add: rd_def Let_def)

lemma quantum_eval:
  "quantum a = (let p = pow2_floor a
                in if 1 / 1267650600228229401496703205376 \<le> p then p / 4503599627370496
                   else max p norm_min / 4503599627370496)"
  using tiny_norm_min by (simp add: quantum_def Let_def max_def)

lemma rd_D: "\<bar>rd x\<bar> < huge \<Longrightarrow> D (rd x) = D x"
proof -
  assume a: "\<bar>rd x\<bar> < huge"
  then have "rd (rd x) = rd x" by (intro rd_representable representable_rd)
  then show ?thesis using a by (simp add: D_def)
qed

lemma fl_eval:
  "fl x = (let r = rd x
           in if \<bar>r\<bar> < 1267650600228229401496703205376
              then (if r = 0 then szero (x < 0) else Fin (D r))
              else if huge \<le> \<bar>r\<bar> then sinf (x < 0) else Fin (D r))"
  using rd_D[of x] big_huge by (auto simp: fl_def Let_def)

lemmas ev = rd_eval quantum_eval pow2_floor_def pow2_up.simps pow2_down.simps rhe_def
  val_D_eval fl_eval lit_def szero_def sinf_def jadd_def jsub_def jmul_def jdiv_def
  jgt_def round_js_def percentChange_def slippage_def double_eq_iff

section \<open>Numbers\<close>

lemma huge_pos [simp]: "0 < huge" "\<not> huge \<le> 0"
  unfolding huge_def by simp_all

lemma lit_0: "lit 0 = Fin (D 0)"
  by (simp add: lit_def fl_def szero_def)

lemma val_D_100 [simp]: "val (D 100) = 100"
  by (simp add: val_D_numeral)

lemma representable_of_int_small:
  assumes "\<bar>n\<bar> < (2::int) ^ 53"
  shows "representable (of_int n)"
  using representable_dyadic[of n 0] assms by simp

lemma lit_100: "lit 100 = Fin (D 100)"
proof -
  have r: "representable 100" using representable_of_int_small[of 100] by simp
  have "rd 100 = 100" using r by (rule rd_representable)
  moreover have "\<bar>100::rat\<bar> < huge" using representable_bound[OF r] .
  ultimately show ?thesis by (simp add: lit_def fl_def)
qed

lemma fl_not_NaN [simp]: "fl x \<noteq> NaN"
  by (simp add: fl_def szero_def sinf_def)

lemma szero_simps [simp]:
  "szero b \<noteq> NaN" "szero b \<noteq> PInf" "szero b \<noteq> NInf" "is_zero (szero b)"
  "\<not> is_inf (szero b)" "rval (szero b) = 0" "is_neg (szero b) = b"
  by (simp_all add: szero_def)

lemma sinf_simps [simp]:
  "sinf b \<noteq> NaN" "sinf b \<noteq> NZero" "sinf b \<noteq> Fin d" "\<not> is_zero (sinf b)"
  "is_inf (sinf b)" "is_neg (sinf b) = b"
  by (simp_all add: sinf_def)

lemma D_val [simp]: "D (val e) = e"
proof -
  have "rd (val e) = val e" by (rule rd_representable) simp
  moreover have "\<bar>val e\<bar> < huge" by (rule representable_bound) simp
  ultimately show ?thesis by (simp add: D_def val_inverse)
qed

lemma fl_representable:
  assumes "representable x" "x \<noteq> 0"
  shows "fl x = Fin (D x)" and "val (D x) = x"
proof -
  have r: "rd x = x" using assms(1) by (rule rd_representable)
  have b: "\<bar>x\<bar> < huge" using assms(1) by (rule representable_bound)
  show "fl x = Fin (D x)" using r b assms(2) by (simp add: fl_def)
  show "val (D x) = x" using assms(1) by (rule val_D_representable)
qed

lemma fl_val: "val e \<noteq> 0 \<Longrightarrow> fl (val e) = Fin e"
  using fl_representable(1)[of "val e"] by simp

lemma fl_cases:
  "(huge \<le> \<bar>rd x\<bar> \<and> fl x = sinf (x < 0))
   \<or> (rd x = 0 \<and> fl x = szero (x < 0))
   \<or> (rd x \<noteq> 0 \<and> \<bar>rd x\<bar> < huge \<and> fl x = Fin (D x) \<and> val (D x) = rd x)"
  by (auto simp: fl_def val_D)

lemma rd_pos_iff: "rd x \<noteq> 0 \<Longrightarrow> 0 < rd x \<longleftrightarrow> 0 < x"
  using rd_sign[of x] by (cases "0 < x") (auto simp: not_less le_less)

lemma jgt_fl_0: "rd x \<noteq> 0 \<Longrightarrow> jgt (fl x) (lit 0) \<longleftrightarrow> 0 < x"
proof -
  assume n: "rd x \<noteq> 0"
  then have x: "x \<noteq> 0" by auto
  from fl_cases[of x] n consider
    (inf) "fl x = sinf (x < 0)" | (fin) "fl x = Fin (D x)" "val (D x) = rd x"
    by blast
  then show ?thesis
  proof cases
    case inf
    then show ?thesis using x by (auto simp: jgt_def lit_0 sinf_def)
  next
    case fin
    then show ?thesis using rd_pos_iff[OF n] by (simp add: jgt_def lit_0)
  qed
qed

lemma jgt_trans: "jgt a b \<Longrightarrow> jgt b c \<Longrightarrow> jgt a c"
  by (cases a; cases b; cases c; simp add: jgt_def)

lemma jgt_NaN [simp]: "\<not> jgt NaN b" "\<not> jgt a NaN"
  by (simp_all add: jgt_def)

lemma jgt_zero: "is_zero z \<Longrightarrow> jgt a z \<longleftrightarrow> jgt a (lit 0)"
  by (cases z; cases a; simp add: jgt_def lit_0)

lemma jsub_self_Fin: "val c \<noteq> 0 \<Longrightarrow> jsub (Fin c) (Fin c) = Fin (D 0)"
  by (simp add: jsub_def jadd_def)

lemma jmul_zero_100: "is_zero z \<Longrightarrow> jmul z (lit 100) = szero (is_neg z)"
  by (cases z) (simp_all add: jmul_def lit_100)

lemma jdiv_zero_100: "is_zero z \<Longrightarrow> jdiv z (lit 100) = szero (is_neg z)"
  by (cases z) (simp_all add: jdiv_def lit_100)

lemma Math_round_szero: "Math_round (szero b) = szero b"
  by (simp add: szero_def)

lemma round_js_szero: "round_js (szero b) = szero b"
  by (simp add: round_js_def jmul_zero_100 jdiv_zero_100 Math_round_szero)

lemma percentChange_self_Fin:
  "percentChange (Fin c) (Fin c) = (if val c = 0 then NaN else szero (val c < 0))"
proof (cases "val c = 0")
  case True
  then show ?thesis by (simp add: percentChange_def jsub_def jadd_def jdiv_def jmul_def round_js_def)
next
  case False
  then have "jdiv (jsub (Fin c) (Fin c)) (Fin c) = szero (val c < 0)"
    by (simp add: jsub_self_Fin jdiv_def)
  then show ?thesis using False
    by (simp add: percentChange_def jmul_zero_100 round_js_szero)
qed

lemma percentChange_self: "percentChange x x = NaN \<or> percentChange x x = szero (is_neg x)"
proof (cases x)
  case (Fin c)
  then show ?thesis by (simp add: percentChange_self_Fin)
qed (simp_all add: percentChange_def jsub_def jadd_def jdiv_def jmul_def round_js_def)


section \<open>Comparisons\<close>

lemma jgt_jsub_Fin:
  "jgt (jsub (Fin b) (Fin a)) (lit 0) \<longleftrightarrow> val a < val b"
proof (cases "val a = 0")
  case True
  then show ?thesis
    by (cases "val b = 0") (auto simp: jsub_def jadd_def jgt_def lit_0 fl_val)
next
  case False
  show ?thesis
  proof (cases "val b + - val a = 0")
    case True
    then show ?thesis using False by (simp add: jsub_def jadd_def jgt_def lit_0)
  next
    case ne: False
    have "representable (- val a)" by (rule representable_minus) simp
    then have "rd (val b + - val a) \<noteq> 0" using ne by (intro rd_sum_nonzero) simp_all
    from jgt_fl_0[OF this] show ?thesis using False ne by (simp add: jsub_def jadd_def)
  qed
qed

lemma jgt_jsub_desc_key:
  "a \<noteq> NaN \<Longrightarrow> b \<noteq> NaN \<Longrightarrow> jgt (jsub b a) (lit 0) \<longleftrightarrow> desc_key b < desc_key a"
proof (cases a; cases b)
  fix x y assume "a = Fin x" "b = Fin y"
  then show ?thesis using jgt_jsub_Fin[of y x] by (simp add: desc_key_def)
next
  fix y assume "a = NZero" "b = Fin y"
  then show ?thesis
    by (cases "val y = 0") (auto simp: desc_key_def jsub_def jadd_def jgt_def lit_0 fl_val)
next
  fix x assume "a = Fin x" "b = NZero"
  then show ?thesis
    by (cases "val x = 0") (auto simp: desc_key_def jsub_def jadd_def jgt_def lit_0)
qed (simp_all add: desc_key_def jsub_def jadd_def jgt_def lit_0)

lemma jge_desc_key:
  "a \<noteq> NaN \<Longrightarrow> b \<noteq> NaN \<Longrightarrow> jge a b \<longleftrightarrow> desc_key a \<le> desc_key b"
  by (cases a; cases b) (auto simp: desc_key_def jgt_def)

lemma desc_key_eq: "a = b \<Longrightarrow> desc_key a = desc_key b"
  by simp

lemma rd_of_int_nonzero: "k \<noteq> 0 \<Longrightarrow> rd (of_int k) \<noteq> 0"
proof -
  assume k: "k \<noteq> 0"
  have "(of_int k :: rat) = of_int k * 1" by simp
  also have "\<dots> = of_int k * (2 ^ 1074 * ulp_min)" by (subst one_ulp) (rule refl)
  also have "\<dots> = of_int (k * 2 ^ 1074) * ulp_min" by simp
  finally have "(of_int k :: rat) = of_int (k * 2 ^ 1074) * ulp_min" .
  moreover have "k * 2 ^ 1074 \<noteq> 0" using k by simp
  ultimately show ?thesis by (rule rd_multiple_nonzero)
qed

lemma jgt_fl_of_int: "jgt (fl (of_int k)) (lit 0) \<longleftrightarrow> 0 < k"
proof (cases "k = 0")
  case True
  then show ?thesis by (simp add: fl_def szero_def jgt_def lit_0)
next
  case False
  from jgt_fl_0[OF rd_of_int_nonzero[OF False]] show ?thesis by simp
qed

lemma jgt_date_diff: "jgt (date_diff x y) (lit 0) \<longleftrightarrow> day_number y < day_number x"
  unfolding date_diff_def jgt_fl_of_int by simp

section \<open>Sums and roundings that are not numbers\<close>

lemma jadd_NaN_iff:
  "jadd a b = NaN \<longleftrightarrow> a = NaN \<or> b = NaN \<or> (is_inf a \<and> is_inf b \<and> a \<noteq> b)"
  by (cases a; cases b) (simp_all add: jadd_def)

lemma jmul_100_NaN: "jmul a (lit 100) = NaN \<longleftrightarrow> a = NaN"
  by (cases a) (simp_all add: jmul_def lit_100)

lemma jdiv_100_NaN: "jdiv a (lit 100) = NaN \<longleftrightarrow> a = NaN"
  by (cases a) (simp_all add: jdiv_def lit_100)

lemma Math_round_NaN: "Math_round a = NaN \<longleftrightarrow> a = NaN"
  by (cases a) (simp_all add: Let_def)

lemma round_js_NaN: "round_js a = NaN \<longleftrightarrow> a = NaN"
  by (simp add: round_js_def jdiv_100_NaN Math_round_NaN jmul_100_NaN)

lemma jadd_fin_NaN: "is_fin b \<Longrightarrow> jadd a b = NaN \<longleftrightarrow> a = NaN"
  by (cases b) (simp_all add: jadd_NaN_iff)

lemma fl_sum_not_NZero:
  assumes "val x + val y \<noteq> 0"
  shows "fl (val x + val y) \<noteq> NZero"
proof -
  have "rd (val x + val y) \<noteq> 0" using assms by (intro rd_sum_nonzero) simp_all
  with fl_cases[of "val x + val y"] show ?thesis by (auto simp: sinf_def split: if_splits)
qed

lemma jadd_NZero_iff: "jadd a b = NZero \<longleftrightarrow> a = NZero \<and> b = NZero"
  by (cases a; cases b) (simp_all add: jadd_def fl_sum_not_NZero)

lemma date_total_not_NZero: "date_total ts \<noteq> NZero"
proof -
  have "a \<noteq> NZero \<Longrightarrow> foldl (\<lambda>totalPnl t. jadd totalPnl (pnlPercent t)) a ts \<noteq> NZero" for a
    by (induction ts arbitrary: a) (simp_all add: jadd_NZero_iff)
  then show ?thesis by (simp add: date_total_def lit_0)
qed

lemma jadd_zero_left:
  assumes "is_zero z" "b \<noteq> NZero"
  shows "jadd z b = b"
proof (cases z)
  case (Fin d)
  with assms have z: "val d = 0" by simp
  show ?thesis
  proof (cases b)
    case (Fin e)
    show ?thesis
    proof (cases "val e = 0")
      case True
      then have "e = D 0" by (simp add: double_eq_iff)
      then show ?thesis using z \<open>z = Fin d\<close> Fin by (simp add: jadd_def)
    next
      case False
      then show ?thesis using z \<open>z = Fin d\<close> Fin by (simp add: jadd_def fl_val)
    qed
  qed (use assms \<open>z = Fin d\<close> in \<open>simp_all add: jadd_def\<close>)
qed (use assms in \<open>simp_all add: jadd_def\<close>)

lemma jadd_reset_falsy:
  assumes "v \<noteq> NaN" "b \<noteq> NZero"
  shows "jadd (reset_falsy v) b = jadd v b"
proof (cases "is_zero v")
  case True
  then have "jadd v b = b" using assms(2) by (rule jadd_zero_left)
  moreover have "jadd (lit 0) b = b" using assms(2) by (intro jadd_zero_left) (simp_all add: lit_0)
  ultimately show ?thesis using True by (simp add: reset_falsy_def falsy_def)
next
  case False
  then show ?thesis using assms(1) by (simp add: reset_falsy_def falsy_def)
qed

lemma fold_reset_fin:
  assumes "a \<noteq> NaN" "\<forall>d\<in>set ds. is_fin (g d) \<and> g d \<noteq> NZero"
  shows "foldl (\<lambda>acc d. round_js (jadd (reset_falsy acc) (g d))) a ds =
         foldl (\<lambda>acc d. round_js (jadd acc (g d))) a ds"
  using assms
proof (induction ds arbitrary: a)
  case Nil
  then show ?case by simp
next
  case (Cons d ds)
  then have "round_js (jadd a (g d)) \<noteq> NaN"
    by (simp add: round_js_NaN jadd_fin_NaN)
  with Cons show ?case by (simp add: jadd_reset_falsy)
qed

lemma fold_reset_start:
  assumes "\<forall>d\<in>set ds. is_fin (g d) \<and> g d \<noteq> NZero" "ds \<noteq> []"
  shows "foldl (\<lambda>acc d. round_js (jadd (reset_falsy acc) (g d))) NaN ds =
         foldl (\<lambda>acc d. round_js (jadd acc (g d))) (lit 0) ds"
proof (cases ds)
  case Nil
  with assms show ?thesis by simp
next
  case (Cons d ds')
  have r: "reset_falsy NaN = lit 0" by (simp add: reset_falsy_def falsy_def)
  have f: "round_js (jadd (lit 0) (g d)) \<noteq> NaN"
    using assms(1) Cons by (simp add: round_js_NaN jadd_fin_NaN lit_0)
  show ?thesis
    using fold_reset_fin[OF f, of ds' g] assms(1) Cons by (simp add: r)
qed

section \<open>Rounding to two decimals\<close>

lemma half_up_2dp_floor: "half_up_2dp x (of_int \<lfloor>x * 100 + 1 / 2\<rfloor> / 100)"
proof -
  let ?k = "\<lfloor>x * 100 + 1 / 2\<rfloor>"
  have lo: "of_int ?k \<le> x * 100 + 1 / 2" by (rule of_int_floor_le)
  have hi: "x * 100 + 1 / 2 < of_int ?k + 1" by linarith
  have "x - 1 / 200 < of_int ?k / 100" using hi by (simp add: field_simps)
  moreover have "of_int ?k / 100 \<le> x + 1 / 200" using lo by (simp add: field_simps)
  ultimately show ?thesis unfolding half_up_2dp_def by blast
qed

lemma half_up_2dp_unique:
  assumes "half_up_2dp x r"
  shows "r = of_int \<lfloor>x * 100 + 1 / 2\<rfloor> / 100"
proof -
  from assms obtain k :: int where r: "r = of_int k / 100"
    and lo: "x - 1 / 200 < r" and hi: "r \<le> x + 1 / 200"
    unfolding half_up_2dp_def by blast
  have "of_int k \<le> x * 100 + 1 / 2" using hi r by (simp add: field_simps)
  moreover have "x * 100 + 1 / 2 < of_int k + 1" using lo r by (simp add: field_simps)
  ultimately have "\<lfloor>x * 100 + 1 / 2\<rfloor> = k" by (simp add: floor_unique)
  then show ?thesis using r by simp
qed

lemma half_ulp: "2 ^ 1073 * ulp_min = 1 / 2"
  by (simp add: ulp_min_def)

lemma floor_half_representable:
  assumes "representable y"
  shows "representable (of_int \<lfloor>y + 1 / 2\<rfloor>)"
proof -
  from assms obtain m :: int and k :: nat where
    m: "\<bar>m\<bar> < 2 ^ 53" and k: "k \<le> 2045" and y: "y = of_int m * 2 ^ k * ulp_min"
    unfolding representable_def by blast
  show ?thesis
  proof (cases "1074 \<le> k")
    case True
    then obtain i where i: "k = 1074 + i" by (metis le_Suc_ex)
    have "(2::rat) ^ k * ulp_min = 2 ^ i * (2 ^ 1074 * ulp_min)"
      by (simp only: i power_add mult.assoc mult.commute mult.left_commute)
    also have "\<dots> = 2 ^ i" using one_ulp by simp
    finally have "y = of_int (m * 2 ^ i)" using y by (simp add: mult.assoc)
    then have "of_int \<lfloor>y + 1 / 2\<rfloor> = y" by simp
    then show ?thesis using assms by simp
  next
    case False
    then have "k \<le> 1073" by simp
    then have "(2::rat) ^ k \<le> 2 ^ 1073" by (intro power_increasing) simp_all
    then have "(2::rat) ^ k * ulp_min \<le> 2 ^ 1073 * ulp_min"
      using ulp_min_pos by (intro mult_right_mono) simp_all
    then have q: "(2::rat) ^ k * ulp_min \<le> 1 / 2" by (simp only: half_ulp)
    have q0: "0 \<le> (2::rat) ^ k * ulp_min" using ulp_min_pos by simp
    define u where "u = (2::rat) ^ k * ulp_min"
    have yu: "y = of_int m * u" using y by (simp add: u_def mult.assoc)
    have u0: "0 \<le> u" using q0 by (simp only: u_def)
    have u1: "u \<le> 1 / 2" using q by (simp only: u_def)
    have "\<bar>y\<bar> = \<bar>of_int m\<bar> * \<bar>u\<bar>" by (simp only: yu abs_mult)
    also have "\<dots> = of_int \<bar>m\<bar> * u" using u0 by simp
    also have "\<dots> \<le> of_int \<bar>m\<bar> * (1 / 2)" using u1 by (intro mult_left_mono) simp_all
    also have "\<dots> < 2 ^ 53 * (1 / 2)"
    proof -
      have "(of_int \<bar>m\<bar> :: rat) < of_int (2 ^ 53)" using m by (simp only: of_int_less_iff)
      then show ?thesis by simp
    qed
    finally have b: "\<bar>y\<bar> < 2 ^ 52" by simp
    then have b1: "y + 1 / 2 < 4503599627370497" and b2: "- 4503599627370496 \<le> y + 1 / 2"
      by (simp_all add: abs_less_iff)
    define f where "f = \<lfloor>y + 1 / 2\<rfloor>"
    have "f < 4503599627370497" unfolding f_def using b1 by (simp add: floor_less_iff)
    moreover have "- 4503599627370496 \<le> f" unfolding f_def using b2 by (simp add: le_floor_iff)
    ultimately have "\<bar>f\<bar> < 2 ^ 53" by simp
    then show ?thesis unfolding f_def by (rule representable_of_int_small)
  qed
qed

lemma Math_round_Fin:
  "Math_round (Fin y) =
     (if \<lfloor>val y + 1 / 2\<rfloor> = 0 then szero (val y < 0) else Fin (D (of_int \<lfloor>val y + 1 / 2\<rfloor>)))"
  "val (D (of_int \<lfloor>val y + 1 / 2\<rfloor>)) = of_int \<lfloor>val y + 1 / 2\<rfloor>"
proof -
  have r: "representable (of_int \<lfloor>val y + 1 / 2\<rfloor>)"
    by (rule floor_half_representable) simp
  show "val (D (of_int \<lfloor>val y + 1 / 2\<rfloor>)) = of_int \<lfloor>val y + 1 / 2\<rfloor>"
    using r by (rule val_D_representable)
  show "Math_round (Fin y) =
     (if \<lfloor>val y + 1 / 2\<rfloor> = 0 then szero (val y < 0) else Fin (D (of_int \<lfloor>val y + 1 / 2\<rfloor>)))"
    using fl_representable(1)[OF r] by (simp add: Let_def)
qed

lemma round_js_product:
  assumes "jmul x (lit 100) = Fin y"
  shows "round_js x =
     (if \<lfloor>val y + 1 / 2\<rfloor> = 0 then szero (val y < 0) else fl (of_int \<lfloor>val y + 1 / 2\<rfloor> / 100))"
proof (cases "\<lfloor>val y + 1 / 2\<rfloor> = 0")
  case True
  then show ?thesis
    unfolding round_js_def assms by (simp add: Math_round_Fin(1) jdiv_zero_100 del: Math_round.simps)
next
  case False
  then have "val (D (of_int \<lfloor>val y + 1 / 2\<rfloor>)) \<noteq> 0" by (simp add: Math_round_Fin(2))
  then show ?thesis using False
    unfolding round_js_def assms by (simp add: Math_round_Fin jdiv_def lit_100 del: Math_round.simps)
qed

text \<open>
  C4, as stated, fails. The binary64 number nearest to 0.015 is a little below 0.015, so
  rounding it half up to two decimals gives 0.01; its product with 100 is rounded to the
  binary64 number 1.5, and \<open>round\<close> returns 0.02.
\<close>

theorem round_js_not_half_up_counterexample:
  "rval (lit (15 / 1000)) = 1080863910568919 / 72057594037927936
   \<and> half_up_2dp (rval (lit (15 / 1000))) (1 / 100)
   \<and> round_js (lit (15 / 1000)) = lit (2 / 100)
   \<and> lit (2 / 100) \<noteq> lit (1 / 100)"
proof -
  have v: "rval (lit (15 / 1000)) = 1080863910568919 / 72057594037927936"
    by (simp add: ev)
  have h: "half_up_2dp (rval (lit (15 / 1000))) (1 / 100)"
    unfolding v half_up_2dp_def by (rule conjI, rule exI[of _ 1]) simp_all
  have r: "round_js (lit (15 / 1000)) = lit (2 / 100)"
    by (simp add: ev)
  have n: "lit (2 / 100) \<noteq> lit (1 / 100)"
    by (simp add: ev)
  from v h r n show ?thesis by blast
qed

text \<open>
  C4, amended. \<open>round\<close> multiplies by 100 in binary64, rounds the product \<open>y\<close> to the nearest
  integer, the larger one on a tie, and divides by 100 in binary64: on a finite number
  whose product with 100 is finite, the result is the binary64 number nearest to \<open>y / 100\<close>
  rounded half up to two decimals (a zero with the sign of \<open>y\<close> when that is zero). When
  the product is exact, this is the number itself rounded half up to two decimals, also for
  a negative number whose product is exactly a half.
\<close>

theorem round_js_half_up_of_product:
  assumes "jmul (Fin x) (lit 100) = Fin y" and "half_up_2dp (val y / 100) r"
  shows "round_js (Fin x) = (if r = 0 then szero (val y < 0) else fl r)
         \<and> (val y = val x * 100 \<longrightarrow> half_up_2dp (val x) r)"
proof -
  have r: "r = of_int \<lfloor>val y + 1 / 2\<rfloor> / 100"
    using half_up_2dp_unique[OF assms(2)] by simp
  have z: "r = 0 \<longleftrightarrow> \<lfloor>val y + 1 / 2\<rfloor> = 0" unfolding r by simp
  have "round_js (Fin x) = (if r = 0 then szero (val y < 0) else fl r)"
    unfolding z by (simp add: round_js_product[OF assms(1)] r)
  moreover have "val y = val x * 100 \<longrightarrow> half_up_2dp (val x) r"
    using assms(2) by auto
  ultimately show ?thesis by blast
qed

text \<open>At \<open>-0.125\<close> the product is \<open>-12.5\<close>, exactly, and the result is \<open>-0.12\<close>, not \<open>-0.13\<close>.\<close>

theorem round_js_half_up_of_product_witness:
  "jmul (lit (- (1 / 8))) (lit 100) = lit (- (25 / 2))
   \<and> half_up_2dp (- (1 / 8)) (- (12 / 100))
   \<and> round_js (lit (- (1 / 8))) = lit (- (12 / 100))
   \<and> \<not> half_up_2dp (- (1 / 8)) (- (13 / 100))"
proof -
  have x: "lit (- (1 / 8)) = Fin (D (- (1 / 8)))" "val (D (- (1 / 8))) = - (1 / 8)"
    and y: "lit (- (25 / 2)) = Fin (D (- (25 / 2)))" "val (D (- (25 / 2))) = - (25 / 2)"
    by (simp_all add: ev)
  have p: "jmul (Fin (D (- (1 / 8)))) (lit 100) = Fin (D (- (25 / 2)))"
    by (simp add: ev)
  have h: "half_up_2dp (val (D (- (25 / 2))) / 100) (- (12 / 100))"
    unfolding half_up_2dp_def y by (rule conjI, rule exI[of _ "- 12"]) simp_all
  have e: "val (D (- (25 / 2))) = val (D (- (1 / 8))) * 100" by (simp add: x y)
  from round_js_half_up_of_product[OF p h] e
  have "round_js (Fin (D (- (1 / 8)))) = fl (- (12 / 100))" "half_up_2dp (val (D (- (1 / 8)))) (- (12 / 100))"
    by simp_all
  moreover have "\<not> half_up_2dp (- (1 / 8)) (- (13 / 100))"
    by (simp add: half_up_2dp_def)
  ultimately show ?thesis using p unfolding x y lit_def[symmetric] by blast
qed

section \<open>The scan of a price series\<close>

lemma loop_body_eq:
  "loop_body symb ohlc i acc =
     acc @ (if entry_conditions ohlc i then [window_trade symb ohlc i] else [])"
  by (simp add: loop_body_def entry_conditions_def window_trade_def Let_def)

lemma runTest_loop_eq:
  "runTest_loop symb ohlc m start acc =
     acc @ map (window_trade symb ohlc) (filter (entry_conditions ohlc) [start..<nat m])"
proof (induction symb ohlc m start acc rule: runTest_loop.induct)
  case (1 symb ohlc m start acc)
  show ?case
  proof (cases "int start < m")
    case True
    then have "[start..<nat m] = start # [start + 1..<nat m]"
      by (simp add: upt_conv_Cons)
    with True 1 show ?thesis
      by (subst runTest_loop.simps) (simp add: loop_body_eq)
  next
    case False
    then show ?thesis
      by (subst runTest_loop.simps) simp
  qed
qed

lemma scan_eq:
  "scan symb ohlc =
     map (window_trade symb ohlc) (filter (entry_conditions ohlc) [0..<length ohlc - 4])"
proof -
  have "nat (int (length ohlc) - 4) = length ohlc - 4" by simp
  then show ?thesis by (simp add: scan_def runTest_loop_eq)
qed


lemma scan_member:
  "t \<in> set (scan symb ohlc) \<longleftrightarrow>
     (\<exists>i. i + 4 < length ohlc \<and> entry_conditions ohlc i \<and> t = window_trade symb ohlc i)"
proof -
  have "\<And>i. i < length ohlc - 4 \<longleftrightarrow> i + 4 < length ohlc" by auto
  then show ?thesis by (auto simp: scan_eq)
qed

lemma rally_conditions: "entry_conditions rally_ohlc 0" "entry_conditions rally_ohlc 1"
  unfolding rally_ohlc_def day_bar_def entry_conditions_def Let_def
  by (simp_all add: ev)

lemma rally_trades:
  "window_trade ''ACC'' rally_ohlc 0 =
     \<lparr>date = \<lparr>dd = 5, mm = 1, yyyy = 2018\<rparr>, entry = lit (1031 / 10), exit = lit 104,
      symbol = ''ACC'', pnlPercent = lit (87 / 100), change = lit (198 / 100)\<rparr>"
  "window_trade ''ACC'' rally_ohlc 1 =
     \<lparr>date = \<lparr>dd = 4, mm = 1, yyyy = 2018\<rparr>, entry = lit (1011 / 10), exit = lit (205 / 2),
      symbol = ''ACC'', pnlPercent = lit (138 / 100), change = lit 1\<rparr>"
  unfolding rally_ohlc_def day_bar_def window_trade_def
  by (simp_all add: ev)

lemma scan_rally:
  "scan ''ACC'' rally_ohlc = [window_trade ''ACC'' rally_ohlc 0, window_trade ''ACC'' rally_ohlc 1]"
proof -
  have "[0..<length rally_ohlc - 4] = [0, 1]" by (simp add: rally_ohlc_def upt_rec)
  then show ?thesis using rally_conditions by (simp add: scan_eq)
qed










lemma steep_changes:
  "percentChange (lit 3) (lit 6) = lit 100" "percentChange (lit 1) (lit 3) = lit 200"
  by (simp_all add: ev)

text \<open>
  C9. A price series with fewer than 5 bars gives no candidate, and the scan of a stock whose
  file holds such a series ends with the empty list, not with an error.
\<close>

theorem short_series_no_candidates:
  "length ohlc < 5 \<Longrightarrow>
     scan symb ohlc = []
     \<and> (files w (year @ ''/'' @ symb @ ''.json'') = Some (Instrument_json ohlc)
          \<longrightarrow> runTest w year symb = Fulfilled [])"
  by (simp add: scan_def runTest_loop.simps runTest_def readFile_def)

text \<open>A series of four bars.\<close>

theorem short_series_no_candidates_witness:
  "length (take 4 rally_ohlc) < 5
   \<and> scan ''ACC'' (take 4 rally_ohlc) = []
   \<and> runTest \<lparr>files = [''2018/ACC.json'' \<mapsto> Instrument_json (take 4 rally_ohlc)],
               writable = (\<lambda>name. True)\<rparr> ''2018'' ''ACC'' = Fulfilled []"
proof -
  have n: "length (take 4 rally_ohlc) < 5" by simp
  show ?thesis
    using n short_series_no_candidates[OF n, of "''ACC''"
      "\<lparr>files = [''2018/ACC.json'' \<mapsto> Instrument_json (take 4 rally_ohlc)],
               writable = (\<lambda>name. True)\<rparr>" "''2018''"]
    by simp
qed





text \<open>
  C10. The ranking key of every candidate of a scan is greater than zero: it is the first
  percent change of a window, which exceeds the second, which exceeds the third, and the
  third is a zero, with the sign of the close of \<open>d4\<close>.
\<close>

theorem emitted_change_positive:
  assumes "t \<in> set (scan symb ohlc)"
  shows "jgt (change t) (lit 0)
         \<and> (\<exists>i. i + 4 < length ohlc
                \<and> change t = percentChange (bar_close (ohlc ! (i + 2))) (bar_close (ohlc ! (i + 1)))
                \<and> jgt (change t) (percentChange (bar_close (ohlc ! (i + 3))) (bar_close (ohlc ! (i + 2))))
                \<and> jgt (percentChange (bar_close (ohlc ! (i + 3))) (bar_close (ohlc ! (i + 2)))) (lit 0)
                \<and> percentChange (bar_close (ohlc ! (i + 4))) (bar_close (ohlc ! (i + 4))) =
                    szero (is_neg (bar_close (ohlc ! (i + 4)))))"
proof -
  from assms obtain i where i: "i + 4 < length ohlc" and c: "entry_conditions ohlc i"
    and t: "t = window_trade symb ohlc i"
    by (auto simp: scan_member)
  let ?inc1 = "percentChange (bar_close (ohlc ! (i + 2))) (bar_close (ohlc ! (i + 1)))"
  let ?inc2 = "percentChange (bar_close (ohlc ! (i + 3))) (bar_close (ohlc ! (i + 2)))"
  let ?inc3 = "percentChange (bar_close (ohlc ! (i + 4))) (bar_close (ohlc ! (i + 4)))"
  from c have g12: "jgt ?inc1 ?inc2" and g23: "jgt ?inc2 ?inc3"
    by (simp_all add: entry_conditions_def Let_def)
  from g23 have "?inc3 \<noteq> NaN" by auto
  with percentChange_self[of "bar_close (ohlc ! (i + 4))"]
  have z: "?inc3 = szero (is_neg (bar_close (ohlc ! (i + 4))))" by simp
  then have "is_zero ?inc3" by simp
  with g23 have g20: "jgt ?inc2 (lit 0)" by (simp add: jgt_zero)
  with g12 have "jgt ?inc1 (lit 0)" by (rule jgt_trans)
  moreover have "change t = ?inc1" by (simp add: t window_trade_def)
  ultimately show ?thesis using i g12 g20 z by auto
qed

text \<open>The candidate of the first window of the six rising bars has the key 1.98.\<close>

theorem emitted_change_positive_witness:
  "window_trade ''ACC'' rally_ohlc 0 \<in> set (scan ''ACC'' rally_ohlc)
   \<and> change (window_trade ''ACC'' rally_ohlc 0) = lit (198 / 100)
   \<and> jgt (change (window_trade ''ACC'' rally_ohlc 0)) (lit 0)"
proof -
  have m: "window_trade ''ACC'' rally_ohlc 0 \<in> set (scan ''ACC'' rally_ohlc)"
    by (simp add: scan_rally)
  have v: "change (window_trade ''ACC'' rally_ohlc 0) = lit (198 / 100)"
    by (simp add: rally_trades)
  from emitted_change_positive[OF m] m v show ?thesis by blast
qed

section \<open>Sorting\<close>

lemma insort_by_insort_key:
  assumes "\<forall>y\<in>set ys. jgt (cmp x y) (lit 0) \<longleftrightarrow> f y < f x"
  shows "insort_by cmp x ys = insort_key f x ys"
  using assms by (induction ys) (auto simp: not_less)

lemma sort_by_sort_key:
  assumes "\<forall>x\<in>set xs. \<forall>y\<in>set xs. jgt (cmp x y) (lit 0) \<longleftrightarrow> f y < (f x :: 'b :: linorder)"
  shows "sort_by cmp xs = sort_key f xs"
  using assms
proof (induction xs)
  case Nil
  then show ?case by (simp add: sort_by_def)
next
  case (Cons x xs)
  then have ih: "sort_by cmp xs = sort_key f xs" by simp
  have "sort_by cmp (x # xs) = insort_by cmp x (sort_by cmp xs)"
    by (simp add: sort_by_def)
  also have "\<dots> = insort_key f x (sort_key f xs)"
    unfolding ih using Cons.prems by (intro insort_by_insort_key) simp
  finally show ?case by simp
qed

lemma sort_by_date_diff: "sort_by date_diff ds = sort_key day_number ds"
  by (rule sort_by_sort_key) (simp add: jgt_date_diff)

lemma sort_by_change:
  assumes "\<forall>t\<in>set ts. change t \<noteq> NaN"
  shows "sort_by by_change ts = sort_key (\<lambda>t. desc_key (change t)) ts"
  using assms by (intro sort_by_sort_key) (simp add: by_change_def jgt_jsub_desc_key)

lemma mset_sort_by: "mset (sort_by cmp xs) = mset xs"
proof -
  have "mset (insort_by cmp x ys) = add_mset x (mset ys)" for x ys
    by (induction ys) auto
  then show ?thesis by (induction xs) (auto simp: sort_by_def)
qed

lemma set_sort_by: "set (sort_by cmp xs) = set xs"
  by (metis mset_sort_by set_mset_mset)

lemma length_sort_by: "length (sort_by cmp xs) = length xs"
  by (metis mset_sort_by size_mset)

lemma sort_by_short: "length xs < 2 \<Longrightarrow> sort_by cmp xs = xs"
  by (cases xs) (auto simp: sort_by_def)

lemma sort_by_change_props:
  assumes "\<forall>t\<in>set cs. change t \<noteq> NaN"
  shows "sorted_wrt (\<lambda>a b. jge (change a) (change b)) (sort_by by_change cs)"
    and "filter (\<lambda>t. change t = k) (sort_by by_change cs) = filter (\<lambda>t. change t = k) cs"
    and "filter (\<lambda>t. desc_key (change t) = desc_key k) (sort_by by_change cs) =
         filter (\<lambda>t. desc_key (change t) = desc_key k) cs"
proof -
  let ?f = "\<lambda>t. desc_key (change t)"
  have s: "sort_by by_change cs = sort_key ?f cs"
    using assms by (rule sort_by_change)
  have "sorted (map ?f (sort_key ?f cs))" by simp
  then have "sorted_wrt (\<lambda>a b. ?f a \<le> ?f b) (sort_key ?f cs)"
    by (simp add: sorted_map)
  moreover have "\<And>a b. a \<in> set (sort_key ?f cs) \<Longrightarrow> b \<in> set (sort_key ?f cs) \<Longrightarrow>
      ?f a \<le> ?f b \<Longrightarrow> jge (change a) (change b)"
    using assms by (simp add: jge_desc_key)
  ultimately show "sorted_wrt (\<lambda>a b. jge (change a) (change b)) (sort_by by_change cs)"
    unfolding s by (rule sorted_wrt_mono_rel[rotated]) auto
  have st: "filter (\<lambda>t. ?f t = desc_key k) (sort_key ?f cs) = filter (\<lambda>t. ?f t = desc_key k) cs"
    by (rule sort_key_stable)
  then show "filter (\<lambda>t. desc_key (change t) = desc_key k) (sort_by by_change cs) =
         filter (\<lambda>t. desc_key (change t) = desc_key k) cs"
    by (simp add: s)
  have n: "filter (\<lambda>t. change t = k) xs =
      filter (\<lambda>t. change t = k) (filter (\<lambda>t. ?f t = desc_key k) xs)" for xs
    by (induction xs) auto
  show "filter (\<lambda>t. change t = k) (sort_by by_change cs) = filter (\<lambda>t. change t = k) cs"
    by (subst n, subst (2) n) (simp only: s st)
qed

text \<open>On days of the calendar, the order of \<open>day_number\<close> is the order of year, month and day.\<close>

lemma day_number_chronological:
  assumes "1 \<le> dd a" "dd a \<le> 31" "1 \<le> mm a" "mm a \<le> 12"
      and "1 \<le> dd b" "dd b \<le> 31" "1 \<le> mm b" "mm b \<le> 12"
  shows "day_number a < day_number b \<longleftrightarrow>
           yyyy a < yyyy b \<or> (yyyy a = yyyy b \<and> (mm a < mm b \<or> (mm a = mm b \<and> dd a < dd b)))"
proof -
  have y: "day_number a < day_number b" if "yyyy a < yyyy b"
  proof -
    from that have "yyyy a + 1 \<le> yyyy b" by simp
    then have "(yyyy a + 1) * 372 \<le> yyyy b * 372" by (rule mult_le_mono1)
    then show ?thesis using assms unfolding day_number_def by simp
  qed
  have y': "day_number b < day_number a" if "yyyy b < yyyy a"
  proof -
    from that have "yyyy b + 1 \<le> yyyy a" by simp
    then have "(yyyy b + 1) * 372 \<le> yyyy a * 372" by (rule mult_le_mono1)
    then show ?thesis using assms unfolding day_number_def by simp
  qed
  have m: "yyyy a = yyyy b \<Longrightarrow> mm a < mm b \<Longrightarrow> day_number a < day_number b"
    using assms unfolding day_number_def by simp
  have m': "yyyy a = yyyy b \<Longrightarrow> mm b < mm a \<Longrightarrow> day_number b < day_number a"
    using assms unfolding day_number_def by simp
  have d: "yyyy a = yyyy b \<Longrightarrow> mm a = mm b \<Longrightarrow> day_number a < day_number b \<longleftrightarrow> dd a < dd b"
    unfolding day_number_def by simp
  show ?thesis
    using y y' m m' d by (metis less_asym' linorder_neqE_nat)
qed

section \<open>Objects and grouping\<close>

lemma obj_get_obj_set: "obj_get k (obj_set k' v ob) = (if k = k' then Some v else obj_get k ob)"
  by (induction ob) (auto simp: obj_get_def)

lemma obj_set_absent: "k \<notin> fst ` set ob \<Longrightarrow> obj_set k v ob = ob @ [(k, v)]"
  by (induction ob) auto

lemma obj_set_last: "k \<notin> fst ` set ob \<Longrightarrow> obj_set k v (ob @ [(k, v')]) = ob @ [(k, v)]"
  by (induction ob) auto

lemma obj_set_twice: "obj_set k v (obj_set k v' ob) = obj_set k v ob"
  by (induction ob) auto

lemma keys_obj_set:
  "Object_keys (obj_set k v ob) =
     (if k \<in> set (Object_keys ob) then Object_keys ob else Object_keys ob @ [k])"
  by (induction ob) (force simp: Object_keys_def)+

lemma obj_list_Nil [simp]: "obj_list k [] = []"
  by (simp add: obj_list_def obj_get_def)

lemma obj_num_Nil [simp]: "obj_num k [] = NaN"
  by (simp add: obj_num_def obj_get_def)

lemma Object_keys_Nil [simp]: "Object_keys [] = []"
  by (simp add: Object_keys_def)

lemma obj_get_None: "obj_get k ob = None \<longleftrightarrow> k \<notin> set (Object_keys ob)"
  by (simp add: obj_get_def Object_keys_def map_of_eq_None_iff)

lemma obj_list_obj_set: "obj_list k (obj_set k' v ob) = (if k = k' then v else obj_list k ob)"
  by (simp add: obj_list_def obj_get_obj_set)

lemma obj_num_obj_set: "obj_num k (obj_set k' v ob) = (if k = k' then v else obj_num k ob)"
  by (simp add: obj_num_def obj_get_obj_set)

lemma obj_get_map_keys:
  "obj_get d (map (\<lambda>d. (d, f d)) ds) = (if d \<in> set ds then Some (f d) else None)"
  by (induction ds) (auto simp: obj_get_def)

lemma obj_get_obj_num:
  "obj_get k ob = (if k \<in> set (Object_keys ob) then Some (obj_num k ob) else None)"
  by (cases "obj_get k ob") (auto simp: obj_num_def obj_get_None[symmetric])

lemma map_obj_num_keys:
  "distinct (Object_keys ob) \<Longrightarrow> map (\<lambda>k. obj_num k ob) (Object_keys ob) = map snd ob"
  by (induction ob) (auto simp: Object_keys_def obj_num_def obj_get_def image_iff)

lemma filter_eq_distinct: "distinct xs \<Longrightarrow> x \<in> set xs \<Longrightarrow> filter (\<lambda>y. y = x) xs = [x]"
  by (induction xs) (auto simp: filter_empty_conv)

lemma groupByDate_step_list:
  "obj_list d (groupByDate_step acc t) = obj_list d acc @ (if date t = d then [t] else [])"
  by (auto simp: groupByDate_step_def Let_def obj_list_obj_set split: option.splits)
     (simp add: obj_list_def)

lemma groupByDate_step_keys:
  "Object_keys (groupByDate_step acc t) =
     (if date t \<in> set (Object_keys acc) then Object_keys acc else Object_keys acc @ [date t])"
  by (auto simp: groupByDate_step_def Let_def keys_obj_set obj_get_None split: option.splits)

lemma groupByDate_fold_list:
  "obj_list d (foldl groupByDate_step acc ts) = obj_list d acc @ filter (\<lambda>t. date t = d) ts"
  by (induction ts arbitrary: acc) (auto simp: groupByDate_step_list)

lemma groupByDate_fold_keys:
  "set (Object_keys (foldl groupByDate_step acc ts)) = set (Object_keys acc) \<union> date ` set ts"
  by (induction ts arbitrary: acc) (auto simp: groupByDate_step_keys)

lemma groupByDate_fold_distinct:
  "distinct (Object_keys acc) \<Longrightarrow> distinct (Object_keys (foldl groupByDate_step acc ts))"
  by (induction ts arbitrary: acc) (auto simp: groupByDate_step_keys)

lemma groupByDate_list: "obj_list d (groupByDate ts) = filter (\<lambda>t. date t = d) ts"
  unfolding groupByDate_def by (simp add: groupByDate_fold_list)

lemma groupByDate_keys: "set (Object_keys (groupByDate ts)) = date ` set ts"
  unfolding groupByDate_def by (simp add: groupByDate_fold_keys)

lemma groupByDate_distinct: "distinct (Object_keys (groupByDate ts))"
  unfolding groupByDate_def by (simp add: groupByDate_fold_distinct)

lemma sorted_dates_props:
  "sorted (map day_number (sorted_dates (groupByDate ts)))"
  "distinct (sorted_dates (groupByDate ts))"
  "set (sorted_dates (groupByDate ts)) = date ` set ts"
  by (simp_all add: sorted_dates_def sort_by_date_diff groupByDate_keys groupByDate_distinct)

section \<open>The loop over the dates\<close>

lemma take_trade_fold_fst:
  "fst (foldl (take_trade d) (tot, T) sel) = foldl (\<lambda>a t. jadd a (pnlPercent t)) tot sel"
  by (induction sel arbitrary: tot T) (auto simp: take_trade_def)

lemma take_trade_fold_snd:
  "snd (foldl (take_trade d) (tot, T) sel) =
     (if sel = [] then T else obj_set d (obj_list d T @ sel) T)"
  by (induction sel arbitrary: tot T)
     (auto simp: take_trade_def obj_list_obj_set obj_set_twice)

lemma process_date_eq:
  "process_date B st d =
     (let m = month_label d;
          sel = take 2 (sort_by by_change (obj_list d B));
          M1 = (if falsy (obj_num m (fst st)) then obj_set m (lit 0) (fst st) else fst st);
          T1 = (case obj_get d (snd st) of None \<Rightarrow> obj_set d [] (snd st) | Some _ \<Rightarrow> snd st)
      in (obj_set m (round_js (jadd (obj_num m M1) (date_total sel))) M1,
          if sel = [] then T1 else obj_set d (obj_list d T1 @ sel) T1))"
proof (cases st)
  case (Pair M T)
  show ?thesis
    unfolding Pair process_date_def Let_def date_total_def prod.case fst_conv snd_conv
    by (subst take_trade_fold_fst[symmetric], subst take_trade_fold_snd[symmetric])
       (simp add: case_prod_beta)
qed

lemma process_date_num:
  "obj_num m (fst (process_date B st d)) =
     (if month_label d = m
      then round_js (jadd (reset_falsy (obj_num m (fst st)))
             (date_total (take 2 (sort_by by_change (obj_list d B)))))
      else obj_num m (fst st))"
  by (auto simp: process_date_eq Let_def obj_num_obj_set reset_falsy_def)

lemma process_date_keys:
  "set (Object_keys (fst (process_date B st d))) = insert (month_label d) (set (Object_keys (fst st)))"
  by (auto simp: process_date_eq Let_def keys_obj_set)

lemma process_date_keys_distinct:
  "distinct (Object_keys (fst st)) \<Longrightarrow> distinct (Object_keys (fst (process_date B st d)))"
  by (auto simp: process_date_eq Let_def keys_obj_set)

lemma process_date_trades:
  assumes "d \<notin> set (Object_keys (snd st))"
  shows "snd (process_date B st d) =
           snd st @ [(d, take 2 (sort_by by_change (obj_list d B)))]"
proof -
  have n: "obj_get d (snd st) = None" using assms by (simp add: obj_get_None)
  have k: "d \<notin> fst ` set (snd st)" using assms by (simp add: Object_keys_def)
  have l: "obj_list d (snd st @ [(d, [])]) = []"
    using obj_list_obj_set[of d d "[]" "snd st"] by (simp add: obj_set_absent[OF k])
  show ?thesis
    by (simp add: process_date_eq Let_def n obj_set_absent[OF k] obj_set_last[OF k] l)
qed

lemma fold_process_date_num:
  "obj_num m (fst (foldl (process_date B) st ds)) =
     foldl (\<lambda>acc d. round_js (jadd (reset_falsy acc)
              (date_total (take 2 (sort_by by_change (obj_list d B))))))
       (obj_num m (fst st)) (filter (\<lambda>d. month_label d = m) ds)"
  by (induction ds arbitrary: st) (simp_all add: process_date_num)

lemma fold_process_date_keys:
  "set (Object_keys (fst (foldl (process_date B) st ds))) =
     set (Object_keys (fst st)) \<union> month_label ` set ds"
  by (induction ds arbitrary: st) (simp_all add: process_date_keys)

lemma fold_process_date_keys_distinct:
  "distinct (Object_keys (fst st)) \<Longrightarrow>
     distinct (Object_keys (fst (foldl (process_date B) st ds)))"
  by (induction ds arbitrary: st) (simp_all add: process_date_keys_distinct)

lemma fold_process_date_trades:
  "distinct ds \<Longrightarrow> set ds \<inter> set (Object_keys (snd st)) = {} \<Longrightarrow>
     snd (foldl (process_date B) st ds) =
       snd st @ map (\<lambda>d. (d, take 2 (sort_by by_change (obj_list d B)))) ds"
proof (induction ds arbitrary: st)
  case Nil
  then show ?case by simp
next
  case (Cons d ds)
  have d: "d \<notin> set (Object_keys (snd st))" using Cons.prems by auto
  have s: "snd (process_date B st d) = snd st @ [(d, take 2 (sort_by by_change (obj_list d B)))]"
    by (rule process_date_trades[OF d])
  have "set ds \<inter> set (Object_keys (snd (process_date B st d))) = {}"
    using Cons.prems by (auto simp: s Object_keys_def)
  with Cons.IH[of "process_date B st d"] Cons.prems show ?case
    by (simp add: s)
qed

lemma set_selected: "set (selected ts d) \<subseteq> set ts"
proof -
  have "set (selected ts d) \<subseteq> set (sort_by by_change (filter (\<lambda>t. date t = d) ts))"
    unfolding selected_def by (rule set_take_subset)
  then show ?thesis by (auto simp: set_sort_by)
qed

lemma selected_outside: "d \<notin> date ` set ts \<Longrightarrow> selected ts d = []"
proof -
  assume "d \<notin> date ` set ts"
  then have "filter (\<lambda>t. date t = d) ts = []" by (auto simp: filter_empty_conv)
  then show ?thesis by (simp add: selected_def sort_by_def)
qed

lemma selected_nonempty: "d \<in> date ` set ts \<Longrightarrow> selected ts d \<noteq> []"
proof -
  assume "d \<in> date ` set ts"
  then have "filter (\<lambda>t. date t = d) ts \<noteq> []" by (auto simp: filter_empty_conv)
  then have "sort_by by_change (filter (\<lambda>t. date t = d) ts) \<noteq> []"
    by (metis length_sort_by length_0_conv)
  then show ?thesis by (simp add: selected_def)
qed

section \<open>The results\<close>

lemma compute_trades:
  "trades (fst (compute ts)) =
     map (\<lambda>d. (d, selected ts d)) (sorted_dates (groupByDate ts))"
proof -
  have "trades (fst (compute ts)) =
      snd (foldl (process_date (groupByDate ts)) ([], []) (sorted_dates (groupByDate ts)))"
    by (simp add: compute_def Let_def case_prod_beta)
  also have "\<dots> = map (\<lambda>d. (d, take 2 (sort_by by_change (obj_list d (groupByDate ts)))))
      (sorted_dates (groupByDate ts))"
    by (subst fold_process_date_trades) (simp_all add: sorted_dates_props)
  finally show ?thesis by (simp add: selected_def groupByDate_list)
qed

lemma compute_monthly:
  "monthlyPnl (fst (compute ts)) =
      fst (foldl (process_date (groupByDate ts)) ([], []) (sorted_dates (groupByDate ts)))"
  by (simp add: compute_def Let_def case_prod_beta)

lemma compute_yearly:
  "yearlyPnl (fst (compute ts)) =
     foldl (\<lambda>acc month. round_js (jadd acc (obj_num month (monthlyPnl (fst (compute ts))))))
       (lit 0) (Object_keys (monthlyPnl (fst (compute ts))))"
  by (simp add: compute_def Let_def case_prod_beta)

lemma compute_csv:
  "snd (compute ts) =
     Date_PnL # map (csv_row (trades (fst (compute ts)))) (Object_keys (trades (fst (compute ts))))"
  by (simp add: compute_def Let_def case_prod_beta)

lemma compute_trades_list: "obj_list d (trades (fst (compute ts))) = selected ts d"
  by (simp add: compute_trades obj_list_def obj_get_map_keys sorted_dates_props selected_outside)

lemma compute_trades_get:
  "obj_get d (trades (fst (compute ts))) =
     (if d \<in> date ` set ts then Some (selected ts d) else None)"
  by (simp add: compute_trades obj_get_map_keys sorted_dates_props)

lemma compute_Nil:
  "compute [] = (\<lparr>yearlyPnl = lit 0, monthlyPnl = [], trades = []\<rparr>, [Date_PnL])"
  by (simp add: compute_def groupByDate_def sorted_dates_def sort_by_def)

lemma sample_numbers:
  "percentChange (lit 100) (lit 102) = lit 2"
  "percentChange (lit 100) (lit (203 / 2)) = lit (3 / 2)"
  "percentChange (lit 100) (lit (199 / 2)) = lit (- (1 / 2))"
  "percentChange (lit 100) (lit 103) = lit 3"
  "percentChange (lit 100) (lit (401 / 4)) = lit (1 / 4)"
  "jsub (lit (3 / 2)) (lit 2) = lit (- (1 / 2))"
  "jsub (lit 2) (lit (3 / 2)) = lit (1 / 2)"
  "jsub (lit (3 / 2)) (lit (3 / 2)) = lit 0"
  "jgt (lit (1 / 2)) (lit 0)"
  "\<not> jgt (lit (- (1 / 2))) (lit 0)"
  "\<not> jgt (lit 0) (lit 0)"
  "jadd (lit 0) (lit (- (1 / 2))) = lit (- (1 / 2))"
  "jadd (lit (- (1 / 2))) (lit (3 / 2)) = lit 1"
  "jadd (lit 0) (lit (1 / 4)) = lit (1 / 4)"
  "jadd (lit 0) (lit 2) = lit 2"
  "jadd (lit 0) (lit 1) = lit 1"
  "jadd (lit 1) (lit (1 / 4)) = lit (5 / 4)"
  "jadd (lit 0) (lit (5 / 4)) = lit (5 / 4)"
  "jadd (lit (5 / 4)) (lit 2) = lit (13 / 4)"
  "round_js (lit 1) = lit 1"
  "round_js (lit 2) = lit 2"
  "round_js (lit (5 / 4)) = lit (5 / 4)"
  "round_js (lit (13 / 4)) = lit (13 / 4)"
  "round_js (lit (1 / 4)) = lit (1 / 4)"
  "round_js (lit (- (1 / 2))) = lit (- (1 / 2))"
  "falsy NaN" "\<not> falsy (lit 1)" "\<not> falsy (lit 2)"
  by (simp_all add: ev falsy_def)

lemma compute_sample:
  "compute sample_trades =
     (\<lparr>yearlyPnl = lit (13 / 4),
       monthlyPnl = [(''Jan'', lit (5 / 4)), (''Feb'', lit 2)],
       trades =
         [(\<lparr>dd = 4, mm = 1, yyyy = 2018\<rparr>,
           [sample_trade 4 1 ''CIPLA'' 2 (199 / 2), sample_trade 4 1 ''BEL'' (3 / 2) (203 / 2)]),
          (\<lparr>dd = 10, mm = 1, yyyy = 2018\<rparr>, [sample_trade 10 1 ''ACC'' 1 (401 / 4)]),
          (\<lparr>dd = 5, mm = 2, yyyy = 2018\<rparr>, [sample_trade 5 2 ''ACC'' 1 102])]\<rparr>,
      [Date_PnL,
       Row \<lparr>dd = 4, mm = 1, yyyy = 2018\<rparr> (lit 1),
       Row \<lparr>dd = 10, mm = 1, yyyy = 2018\<rparr> (lit (1 / 4)),
       Row \<lparr>dd = 5, mm = 2, yyyy = 2018\<rparr> (lit 2)])"
  by (simp add: compute_def sample_trades_def sample_trade_def groupByDate_def groupByDate_step_def
      obj_get_def obj_list_def obj_num_def Object_keys_def sorted_dates_def sort_by_def jgt_date_diff
      day_number_def process_date_def take_trade_def by_change_def month_label_def csv_row_def
      sample_numbers Let_def)

lemma tie_desc_key:
  "a \<noteq> NaN \<Longrightarrow> k \<noteq> NaN \<Longrightarrow> (\<not> jgt a k \<and> \<not> jgt k a) \<longleftrightarrow> desc_key a = desc_key k"
  by (cases a; cases k) (auto simp: desc_key_def jgt_def)

text \<open>
  C6. For every date of the trades, the trades selected for the date are the first two of
  the date's trades (in the order the grouping put them) after a stable sort by ranking key
  in descending order: the sorted list has the same trades, its keys never rise, and trades
  with equal keys keep their order, as do trades whose keys compare as equal. A date with
  three or more trades keeps exactly two, each with a key at least that of every trade not
  kept; a date with at most two trades keeps all of them, and a date with one trade keeps
  it as it is. The ranking keys are numbers, as those of every candidate of a scan are.
\<close>

theorem top_two_selected:
  assumes "\<forall>t\<in>set allTrades. change t \<noteq> NaN" and "d \<in> date ` set allTrades"
  shows "let cs = obj_list d (groupByDate allTrades);
             srt = sort_by by_change cs;
             sel = obj_list d (trades (fst (compute allTrades)))
         in cs = filter (\<lambda>t. date t = d) allTrades
            \<and> obj_get d (trades (fst (compute allTrades))) = Some sel
            \<and> sel = take 2 srt
            \<and> mset srt = mset cs
            \<and> sorted_wrt (\<lambda>a b. jge (change a) (change b)) srt
            \<and> (\<forall>k. filter (\<lambda>t. change t = k) srt = filter (\<lambda>t. change t = k) cs)
            \<and> (\<forall>k. k \<noteq> NaN \<longrightarrow>
                 filter (\<lambda>t. \<not> jgt (change t) k \<and> \<not> jgt k (change t)) srt =
                 filter (\<lambda>t. \<not> jgt (change t) k \<and> \<not> jgt k (change t)) cs)
            \<and> (3 \<le> length cs \<longrightarrow>
                 length sel = 2
                 \<and> (\<forall>s\<in>set sel. \<forall>u\<in>#mset cs - mset sel. jge (change s) (change u)))
            \<and> (length cs \<le> 2 \<longrightarrow> mset sel = mset cs)
            \<and> (length cs < 2 \<longrightarrow> sel = cs)"
proof -
  let ?cs = "filter (\<lambda>t. date t = d) allTrades"
  let ?srt = "sort_by by_change ?cs"
  let ?sel = "take 2 ?srt"
  have nn: "\<forall>t\<in>set ?cs. change t \<noteq> NaN" using assms(1) by simp
  then have nn': "\<forall>t\<in>set ?srt. change t \<noteq> NaN" by (simp add: set_sort_by)
  have srt: "sorted_wrt (\<lambda>a b. jge (change a) (change b)) ?srt"
    by (rule sort_by_change_props(1)[OF nn])
  have stab: "\<forall>k. filter (\<lambda>t. change t = k) ?srt = filter (\<lambda>t. change t = k) ?cs"
    using sort_by_change_props(2)[OF nn] by blast
  have tie: "filter (\<lambda>t. \<not> jgt (change t) k \<and> \<not> jgt k (change t)) ?srt =
             filter (\<lambda>t. \<not> jgt (change t) k \<and> \<not> jgt k (change t)) ?cs" if k: "k \<noteq> NaN" for k
  proof -
    have "filter (\<lambda>t. \<not> jgt (change t) k \<and> \<not> jgt k (change t)) ?srt =
          filter (\<lambda>t. desc_key (change t) = desc_key k) ?srt"
      using nn' k by (intro filter_cong refl) (simp add: tie_desc_key)
    also have "\<dots> = filter (\<lambda>t. desc_key (change t) = desc_key k) ?cs"
      by (rule sort_by_change_props(3)[OF nn])
    also have "\<dots> = filter (\<lambda>t. \<not> jgt (change t) k \<and> \<not> jgt k (change t)) ?cs"
      using nn k by (intro filter_cong refl) (simp add: tie_desc_key)
    finally show ?thesis .
  qed
  have ms: "mset ?srt = mset ?cs" by (rule mset_sort_by)
  have len: "length ?srt = length ?cs" by (rule length_sort_by)
  have split: "?srt = ?sel @ drop 2 ?srt" by simp
  have rest: "mset ?cs - mset ?sel = mset (drop 2 ?srt)"
    by (metis ms split add_diff_cancel_left' mset_append)
  have "sorted_wrt (\<lambda>a b. jge (change a) (change b)) (?sel @ drop 2 ?srt)"
    using srt by simp
  then have ge: "\<forall>s\<in>set ?sel. \<forall>u\<in>set (drop 2 ?srt). jge (change s) (change u)"
    unfolding sorted_wrt_append by blast
  have ge': "\<forall>s\<in>set ?sel. \<forall>u\<in>#mset ?cs - mset ?sel. jge (change s) (change u)"
    unfolding rest using ge by simp
  have "3 \<le> length ?cs \<longrightarrow> length ?sel = 2"
    by (simp add: len)
  with ge' have three: "3 \<le> length ?cs \<longrightarrow>
      length ?sel = 2 \<and> (\<forall>s\<in>set ?sel. \<forall>u\<in>#mset ?cs - mset ?sel. jge (change s) (change u))"
    by blast
  have two: "length ?cs \<le> 2 \<longrightarrow> mset ?sel = mset ?cs"
    using ms by (simp add: len)
  have one: "length ?cs < 2 \<longrightarrow> ?sel = ?cs"
    by (simp add: sort_by_short)
  have get: "obj_get d (trades (fst (compute allTrades))) = Some ?sel"
    using assms(2) by (simp add: compute_trades_get selected_def)
  show ?thesis
    unfolding Let_def compute_trades_list groupByDate_list selected_def
    using get srt stab tie ms three two one
    unfolding selected_def by blast
qed

text \<open>On 4 January the sample has three trades with the keys 1.5, 2 and 1.5: the trade with key 2
  and the first of the two others are kept.\<close>

theorem top_two_selected_witness:
  "list_all (\<lambda>t. change t \<noteq> NaN) sample_trades
   \<and> obj_list \<lparr>dd = 4, mm = 1, yyyy = 2018\<rparr> (groupByDate sample_trades) =
       [sample_trade 4 1 ''BEL'' (3 / 2) (203 / 2), sample_trade 4 1 ''CIPLA'' 2 (199 / 2),
        sample_trade 4 1 ''DLF'' (3 / 2) 103]
   \<and> obj_get \<lparr>dd = 4, mm = 1, yyyy = 2018\<rparr> (trades (fst (compute sample_trades))) =
       Some [sample_trade 4 1 ''CIPLA'' 2 (199 / 2), sample_trade 4 1 ''BEL'' (3 / 2) (203 / 2)]
   \<and> length (obj_list \<lparr>dd = 4, mm = 1, yyyy = 2018\<rparr> (trades (fst (compute sample_trades)))) = 2
   \<and> jge (change (sample_trade 4 1 ''BEL'' (3 / 2) (203 / 2)))
         (change (sample_trade 4 1 ''DLF'' (3 / 2) 103))"
proof -
  let ?d = "\<lparr>dd = 4, mm = 1, yyyy = 2018\<rparr>"
  let ?B = "sample_trade 4 1 ''BEL'' (3 / 2) (203 / 2)"
  let ?C = "sample_trade 4 1 ''CIPLA'' 2 (199 / 2)"
  let ?D = "sample_trade 4 1 ''DLF'' (3 / 2) 103"
  have h: "\<forall>t\<in>set sample_trades. change t \<noteq> NaN"
    by (simp add: sample_trades_def sample_trade_def lit_def)
  have d: "?d \<in> date ` set sample_trades"
    by (simp add: sample_trades_def sample_trade_def)
  have cs: "obj_list ?d (groupByDate sample_trades) = [?B, ?C, ?D]"
    by (simp add: sample_trades_def sample_trade_def groupByDate_def groupByDate_step_def
      obj_get_def obj_list_def Let_def)
  have sel: "obj_list ?d (trades (fst (compute sample_trades))) = [?C, ?B]"
    by (simp add: compute_sample obj_list_def obj_get_def)
  have ne: "?D \<noteq> ?B" "?D \<noteq> ?C" by (simp_all add: sample_trade_def)
  have rest: "mset [?B, ?C, ?D] - mset [?C, ?B] = {#?D#}"
    using ne by simp
  note t = top_two_selected[OF h d, unfolded Let_def cs sel]
  from t have g: "obj_get ?d (trades (fst (compute sample_trades))) = Some [?C, ?B]"
    by blast
  from t have "3 \<le> length [?B, ?C, ?D] \<longrightarrow> length [?C, ?B] = 2
      \<and> (\<forall>s\<in>set [?C, ?B]. \<forall>u\<in>#mset [?B, ?C, ?D] - mset [?C, ?B]. jge (change s) (change u))"
    by blast
  then have "\<forall>s\<in>set [?C, ?B]. \<forall>u\<in>#{#?D#}. jge (change s) (change u)"
    unfolding rest by simp
  then have j: "jge (change ?B) (change ?D)" by simp
  from h have "list_all (\<lambda>t. change t \<noteq> NaN) sample_trades"
    by (simp add: list_all_iff)
  with cs g sel j show ?thesis by simp
qed

text \<open>
  C5. The dates are visited in ascending order, each once. The total of a month is the
  result of going through the dates of the month in that order, from 0, each time adding the
  sum of the profit/loss of the trades selected for the date and rounding the sum to two
  decimals; the yearly total is the result of going through the monthly totals, from 0,
  each time adding one and rounding. The sum of every date is a finite number.
\<close>

theorem monthly_and_yearly_stepwise:
  assumes "\<forall>d\<in>date ` set allTrades.
             is_fin (date_total (obj_list d (trades (fst (compute allTrades)))))"
  shows "let res = fst (compute allTrades);
             ds = sorted_dates (groupByDate allTrades);
             total = (\<lambda>d. date_total (obj_list d (trades res)))
         in (sorted (map day_number ds) \<and> distinct ds \<and> set ds = date ` set allTrades)
            \<and> (\<forall>m. obj_get m (monthlyPnl res) =
                  (if m \<in> month_label ` set ds
                   then Some (foldl (\<lambda>prev d. round_js (jadd prev (total d))) (lit 0)
                                (filter (\<lambda>d. month_label d = m) ds))
                   else None))
            \<and> yearlyPnl res =
                foldl (\<lambda>prev monthlyTotal. round_js (jadd prev monthlyTotal)) (lit 0)
                  (map snd (monthlyPnl res))"
proof -
  let ?B = "groupByDate allTrades"
  let ?ds = "sorted_dates ?B"
  let ?res = "fst (compute allTrades)"
  let ?g = "\<lambda>d. date_total (selected allTrades d)"
  have fin: "\<forall>d\<in>set (filter (\<lambda>d. month_label d = m) ?ds). is_fin (?g d) \<and> ?g d \<noteq> NZero" for m
    using assms by (auto simp: sorted_dates_props compute_trades_list date_total_not_NZero)
  have sel: "take 2 (sort_by by_change (obj_list d ?B)) = selected allTrades d" for d
    by (simp add: selected_def groupByDate_list)
  have num: "obj_num m (monthlyPnl ?res) =
      foldl (\<lambda>acc d. round_js (jadd (reset_falsy acc) (?g d))) NaN
        (filter (\<lambda>d. month_label d = m) ?ds)" for m
    by (simp add: compute_monthly fold_process_date_num sel)
  have keys: "set (Object_keys (monthlyPnl ?res)) = month_label ` set ?ds"
    by (simp add: compute_monthly fold_process_date_keys)
  have dist: "distinct (Object_keys (monthlyPnl ?res))"
    by (simp add: compute_monthly fold_process_date_keys_distinct)
  have monthly: "obj_get m (monthlyPnl ?res) =
      (if m \<in> month_label ` set ?ds
       then Some (foldl (\<lambda>prev d. round_js (jadd prev (?g d))) (lit 0)
                    (filter (\<lambda>d. month_label d = m) ?ds))
       else None)" for m
  proof (cases "m \<in> month_label ` set ?ds")
    case True
    then have ne: "filter (\<lambda>d. month_label d = m) ?ds \<noteq> []"
      by (auto simp: filter_empty_conv)
    show ?thesis
      using True fold_reset_start[OF fin ne]
      by (simp add: obj_get_obj_num keys num)
  next
    case False
    then show ?thesis by (simp add: obj_get_obj_num keys)
  qed
  have yearly: "yearlyPnl ?res =
      foldl (\<lambda>prev monthlyTotal. round_js (jadd prev monthlyTotal)) (lit 0)
        (map snd (monthlyPnl ?res))"
    by (subst compute_yearly, subst map_obj_num_keys[OF dist, symmetric])
       (simp add: foldl_map)
  show ?thesis
    unfolding Let_def compute_trades_list
    using monthly yearly sorted_dates_props[of allTrades] by blast
qed

text \<open>The sample: the dates come out in calendar order, January is 1 then 1.25, February is 2,
  and the year is 1.25 then 3.25.\<close>

theorem monthly_and_yearly_stepwise_witness:
  "list_all (\<lambda>d. is_fin (date_total (obj_list d (trades (fst (compute sample_trades))))))
     (map date sample_trades)
   \<and> sorted_dates (groupByDate sample_trades) =
       [\<lparr>dd = 4, mm = 1, yyyy = 2018\<rparr>, \<lparr>dd = 10, mm = 1, yyyy = 2018\<rparr>, \<lparr>dd = 5, mm = 2, yyyy = 2018\<rparr>]
   \<and> obj_get ''Jan'' (monthlyPnl (fst (compute sample_trades))) =
       Some (round_js (jadd (round_js (jadd (lit 0) (lit 1))) (lit (1 / 4))))
   \<and> obj_get ''Jan'' (monthlyPnl (fst (compute sample_trades))) = Some (lit (5 / 4))
   \<and> obj_get ''Feb'' (monthlyPnl (fst (compute sample_trades))) = Some (lit 2)
   \<and> obj_get ''Mar'' (monthlyPnl (fst (compute sample_trades))) = None
   \<and> yearlyPnl (fst (compute sample_trades)) =
       round_js (jadd (round_js (jadd (lit 0) (lit (5 / 4)))) (lit 2))
   \<and> yearlyPnl (fst (compute sample_trades)) = lit (13 / 4)"
proof -
  have tot: "date_total [sample_trade 4 1 ''CIPLA'' 2 (199 / 2), sample_trade 4 1 ''BEL'' (3 / 2) (203 / 2)] = lit 1"
    "date_total [sample_trade 10 1 ''ACC'' 1 (401 / 4)] = lit (1 / 4)"
    "date_total [sample_trade 5 2 ''ACC'' 1 102] = lit 2"
    by (simp_all add: date_total_def sample_trade_def sample_numbers)
  have f: "is_fin (lit 1)" "is_fin (lit (1 / 4))" "is_fin (lit 2)"
    by (simp_all add: ev)
  have dates: "date ` set sample_trades =
      {\<lparr>dd = 5, mm = 2, yyyy = 2018\<rparr>, \<lparr>dd = 4, mm = 1, yyyy = 2018\<rparr>, \<lparr>dd = 10, mm = 1, yyyy = 2018\<rparr>}"
    by (simp add: sample_trades_def sample_trade_def)
  have h: "\<forall>d\<in>date ` set sample_trades.
      is_fin (date_total (obj_list d (trades (fst (compute sample_trades)))))"
    unfolding dates by (simp add: compute_sample obj_list_def obj_get_def tot f del: One_nat_def)
  have ds: "sorted_dates (groupByDate sample_trades) =
       [\<lparr>dd = 4, mm = 1, yyyy = 2018\<rparr>, \<lparr>dd = 10, mm = 1, yyyy = 2018\<rparr>, \<lparr>dd = 5, mm = 2, yyyy = 2018\<rparr>]"
    by (simp add: sample_trades_def sample_trade_def groupByDate_def groupByDate_step_def
      obj_get_def obj_list_def Object_keys_def sorted_dates_def sort_by_def jgt_date_diff
      day_number_def Let_def)
  have yr: "yearlyPnl (fst (compute sample_trades)) =
       round_js (jadd (round_js (jadd (lit 0) (lit (5 / 4)))) (lit 2))"
    using monthly_and_yearly_stepwise[OF h] unfolding Let_def
    by (simp add: compute_sample)
  have "\<forall>m. obj_get m (monthlyPnl (fst (compute sample_trades))) =
      (if m \<in> month_label ` set (sorted_dates (groupByDate sample_trades))
       then Some (foldl (\<lambda>prev d. round_js (jadd prev
                     (date_total (obj_list d (trades (fst (compute sample_trades)))))))
                   (lit 0)
                   (filter (\<lambda>d. month_label d = m) (sorted_dates (groupByDate sample_trades))))
       else None)"
    using monthly_and_yearly_stepwise[OF h] unfolding Let_def by blast
  note months = this[rule_format, of "''Jan''"]
  have fj: "foldl (\<lambda>prev d. round_js (jadd prev
                     (date_total (obj_list d (trades (fst (compute sample_trades)))))))
                   (lit 0)
                   (filter (\<lambda>d. month_label d = ''Jan'') (sorted_dates (groupByDate sample_trades))) =
      round_js (jadd (round_js (jadd (lit 0) (lit 1))) (lit (1 / 4)))"
    by (simp add: ds month_label_def compute_sample obj_list_def obj_get_def tot del: One_nat_def)
  have mj: "''Jan'' \<in> month_label ` set (sorted_dates (groupByDate sample_trades))"
    by (simp add: ds month_label_def)
  have jan: "obj_get ''Jan'' (monthlyPnl (fst (compute sample_trades))) =
       Some (round_js (jadd (round_js (jadd (lit 0) (lit 1))) (lit (1 / 4))))"
    using months by (simp only: fj mj if_True)
  have vals: "obj_get ''Jan'' (monthlyPnl (fst (compute sample_trades))) = Some (lit (5 / 4))"
    "obj_get ''Feb'' (monthlyPnl (fst (compute sample_trades))) = Some (lit 2)"
    "obj_get ''Mar'' (monthlyPnl (fst (compute sample_trades))) = None"
    "yearlyPnl (fst (compute sample_trades)) = lit (13 / 4)"
    by (simp_all add: compute_sample obj_get_def)
  from h have "list_all (\<lambda>d. is_fin (date_total (obj_list d (trades (fst (compute sample_trades))))))
     (map date sample_trades)"
    by (simp add: list_all_iff)
  with ds jan yr vals show ?thesis by blast
qed

text \<open>
  C7. The CSV lines are the header and, for every date with a selected trade, one line: the
  date and the result of going through the selected trades of the date, from 0, each time
  adding the profit/loss and rounding to two decimals. The monthly totals do not enter. A
  date whose selected trades have the profit/loss 1.5 and -0.5 has exactly one line, with the
  value 1.
\<close>

theorem export_rows:
  "let res = fst (compute allTrades);
       csvLines = snd (compute allTrades);
       ds = sorted_dates (groupByDate allTrades);
       pnl = (\<lambda>d. foldl (\<lambda>acc t. round_js (jadd acc (pnlPercent t))) (lit 0)
                       (obj_list d (trades res)))
   in csvLines = Date_PnL # map (\<lambda>d. Row d (pnl d)) ds
      \<and> distinct ds
      \<and> set ds = {d. obj_list d (trades res) \<noteq> []}
      \<and> (\<forall>d. mset (map pnlPercent (obj_list d (trades res))) = {#lit (3 / 2), lit (- (1 / 2))#}
             \<longrightarrow> filter (row_of d) csvLines = [Row d (lit 1)])"
proof -
  let ?res = "fst (compute allTrades)"
  let ?ds = "sorted_dates (groupByDate allTrades)"
  let ?pnl = "\<lambda>d. foldl (\<lambda>acc t. round_js (jadd acc (pnlPercent t))) (lit 0)
                       (obj_list d (trades ?res))"
  have keys: "Object_keys (trades ?res) = ?ds"
    by (simp add: compute_trades Object_keys_def comp_def)
  have csv: "snd (compute allTrades) = Date_PnL # map (\<lambda>d. Row d (?pnl d)) ?ds"
    by (simp add: compute_csv keys csv_row_def)
  have dist: "distinct ?ds" by (rule sorted_dates_props)
  have nonempty: "set ?ds = {d. obj_list d (trades ?res) \<noteq> []}"
    using selected_nonempty[of _ allTrades] selected_outside[of _ allTrades]
    by (auto simp: sorted_dates_props compute_trades_list)
  have r1: "round_js (jadd (round_js (jadd (lit 0) (lit (3 / 2)))) (lit (- (1 / 2)))) = lit 1"
    by (simp add: ev)
  have r2: "round_js (jadd (round_js (jadd (lit 0) (lit (- (1 / 2))))) (lit (3 / 2))) = lit 1"
    by (simp add: ev)
  have scen: "filter (row_of d) (snd (compute allTrades)) = [Row d (lit 1)]"
    if m: "mset (map pnlPercent (obj_list d (trades ?res))) = {#lit (3 / 2), lit (- (1 / 2))#}" for d
  proof -
    from m have "obj_list d (trades ?res) \<noteq> []" by auto
    then have din: "d \<in> set ?ds" using nonempty by simp
    have "filter (row_of d) (map (\<lambda>d. Row d (?pnl d)) ?ds) =
        map (\<lambda>d. Row d (?pnl d)) (filter (\<lambda>y. y = d) ?ds)"
      by (simp add: filter_map comp_def)
    then have one: "filter (row_of d) (snd (compute allTrades)) = [Row d (?pnl d)]"
      by (simp add: csv filter_eq_distinct[OF dist din])
    from m have "length (map pnlPercent (obj_list d (trades ?res))) = 2"
      by (metis size_mset size_add_mset size_empty numeral_2_eq_2)
    then obtain t1 t2 where l: "obj_list d (trades ?res) = [t1, t2]"
      by (auto simp: length_Suc_conv numeral_2_eq_2)
    with m have "(pnlPercent t1 = lit (3 / 2) \<and> pnlPercent t2 = lit (- (1 / 2)))
        \<or> (pnlPercent t1 = lit (- (1 / 2)) \<and> pnlPercent t2 = lit (3 / 2))"
      by (auto simp: add_eq_conv_ex)
    then have "?pnl d = lit 1"
      using r1 r2 by (auto simp: l)
    with one show ?thesis by simp
  qed
  show ?thesis
    unfolding Let_def using csv dist nonempty scen by blast
qed

text \<open>The lines of the sample; the two trades selected for 4 January have -0.5 and 1.5.\<close>

theorem export_rows_witness:
  "snd (compute sample_trades) =
     [Date_PnL,
      Row \<lparr>dd = 4, mm = 1, yyyy = 2018\<rparr> (lit 1),
      Row \<lparr>dd = 10, mm = 1, yyyy = 2018\<rparr> (lit (1 / 4)),
      Row \<lparr>dd = 5, mm = 2, yyyy = 2018\<rparr> (lit 2)]
   \<and> map pnlPercent (obj_list \<lparr>dd = 4, mm = 1, yyyy = 2018\<rparr> (trades (fst (compute sample_trades)))) =
       [lit (- (1 / 2)), lit (3 / 2)]
   \<and> filter (row_of \<lparr>dd = 4, mm = 1, yyyy = 2018\<rparr>) (snd (compute sample_trades)) =
       [Row \<lparr>dd = 4, mm = 1, yyyy = 2018\<rparr> (lit 1)]"
proof -
  let ?d = "\<lparr>dd = 4, mm = 1, yyyy = 2018\<rparr>"
  have p: "map pnlPercent (obj_list ?d (trades (fst (compute sample_trades)))) =
       [lit (- (1 / 2)), lit (3 / 2)]"
    by (simp add: compute_sample obj_list_def obj_get_def sample_trade_def sample_numbers)
  then have m: "mset (map pnlPercent (obj_list ?d (trades (fst (compute sample_trades))))) =
       {#lit (3 / 2), lit (- (1 / 2))#}"
    by simp
  have "\<forall>d. mset (map pnlPercent (obj_list d (trades (fst (compute sample_trades))))) =
       {#lit (3 / 2), lit (- (1 / 2))#}
       \<longrightarrow> filter (row_of d) (snd (compute sample_trades)) = [Row d (lit 1)]"
    using export_rows[of sample_trades] unfolding Let_def by blast
  with m have "filter (row_of ?d) (snd (compute sample_trades)) = [Row ?d (lit 1)]"
    by blast
  with p show ?thesis by (simp add: compute_sample)
qed

section \<open>The run\<close>





lemma Promise_all_Nil: "Promise_all ord [] = Fulfilled []"
  by (simp add: Promise_all_def failures_def fulfilled_def)








text \<open>
  C2, as stated, fails: with an empty list of stocks the run returns results, built from no
  trade.
\<close>

theorem empty_universe_counterexample:
  "\<forall>ord. \<exists>w'. runBacktest [] offline ord empty_dir None False =
     Fulfilled (\<lparr>yearlyPnl = lit 0, monthlyPnl = [], trades = []\<rparr>, w')"
  by (simp add: runBacktest_def Let_def Promise_all_Nil compute_Nil writeFile_def empty_dir_def)

text \<open>
  C2, amended. With an empty list of stocks the run, when its two files can be written (and
  the download, if asked for, succeeds), returns the results of no trade: a yearly total of
  0, no monthly total and no date; the CSV file holds the header alone.
\<close>

theorem empty_universe_returns_empty_rollup:
  assumes "(if shouldDownload then download year w else Fulfilled w) = Fulfilled wd"
      and "writable wd (year @ ''/backtest-result.json'')"
      and "writable wd (year @ ''/backtest-result.csv'')"
  shows "\<exists>w'. runBacktest [] download ord w (Some year) shouldDownload =
                Fulfilled (\<lparr>yearlyPnl = lit 0, monthlyPnl = [], trades = []\<rparr>, w')
              \<and> files w' (year @ ''/backtest-result.csv'') = Some (Csv_text [Date_PnL])"
  using assms
  by (simp add: runBacktest_def Let_def Promise_all_Nil compute_Nil writeFile_def)

text \<open>The run over no stock in the empty directory.\<close>

theorem empty_universe_returns_empty_rollup_witness:
  "writable empty_dir ''2018/backtest-result.json''
   \<and> writable empty_dir ''2018/backtest-result.csv''
   \<and> (\<exists>w'. runBacktest [] offline [] empty_dir (Some ''2018'') False =
         Fulfilled (\<lparr>yearlyPnl = lit 0, monthlyPnl = [], trades = []\<rparr>, w')
       \<and> files w' ''2018/backtest-result.csv'' = Some (Csv_text [Date_PnL]))"
proof -
  have a: "(if False then offline ''2018'' empty_dir else Fulfilled empty_dir) = Fulfilled empty_dir"
    by simp
  have b: "writable empty_dir (''2018'' @ ''/backtest-result.json'')"
    and c: "writable empty_dir (''2018'' @ ''/backtest-result.csv'')"
    by (simp_all add: empty_dir_def)
  from empty_universe_returns_empty_rollup[where shouldDownload = False and download = offline
      and year = "''2018''" and w = empty_dir and wd = empty_dir and ord = "[]", OF a b c]
  obtain w' where "runBacktest [] offline [] empty_dir (Some ''2018'') False =
      Fulfilled (\<lparr>yearlyPnl = lit 0, monthlyPnl = [], trades = []\<rparr>, w')"
    "files w' (''2018'' @ ''/backtest-result.csv'') = Some (Csv_text [Date_PnL])"
    by blast
  then show ?thesis using b c by auto
qed

end
